theory Spec2Isabelle
  imports Complex_Main "HOL-Library.Word"
begin

section \<open>Data model\<close>

text \<open>
  The Go structs of \<^verbatim>\<open>domain_exporter.go\<close> (and of its later revision with the
  \<^verbatim>\<open>/listings\<close> handler), field by field. Go's \<^verbatim>\<open>int\<close> is the 64-bit machine integer of
  the platforms the exporter is built for; \<^verbatim>\<open>int32\<close> is a 32-bit word read as two's
  complement. A record field is a constant of the theory, so the fields \<^verbatim>\<open>State\<close> and
  \<^verbatim>\<open>Suburb\<close> of \<^verbatim>\<open>PropertyDetails\<close>, which \<^verbatim>\<open>LocationFilter\<close> has too, are \<open>pd_State\<close> and
  \<open>pd_Suburb\<close> here.
\<close>

type_synonym go_int = "64 word"
type_synonym int32 = "32 word"

text \<open>
  A \<^verbatim>\<open>float32\<close> as it arrives from \<^verbatim>\<open>encoding/json\<close>: a finite binary fraction
  \<open>(-1)^sign * mant * 2^expo\<close>. JSON has no literal for NaN or the infinities and a number
  out of range is a decode error, so no other value reaches a listing.
\<close>

datatype float32 = Float32 (sign: bool) (mant: nat) (expo: int)

record LocationFilter =
  State :: string
  Region :: string
  Area :: string
  Suburb :: string
  PostCode :: string
  IncludeSurroundingSuburbs :: bool

record ResidentialSearchRequest =
  ListingType :: string
  MinBedrooms :: go_int
  MinBathrooms :: go_int
  MinCarspaces :: go_int
  PageSize :: go_int
  PageNumber :: go_int
  Locations :: "LocationFilter list"

record PropertyDetails =
  pd_State :: string
  PropertyType :: string
  Bathrooms :: float32
  Bedrooms :: float32
  CarSpaces :: int32
  pd_Suburb :: string
  Postcode :: string

record PropertyListing =
  PropertyDetails :: PropertyDetails

record SearchResult =
  Listing :: PropertyListing

section \<open>The outside world\<close>

text \<open>
  What \<^verbatim>\<open>SearchResidentialPage\<close> hands to \<^verbatim>\<open>http.Client.Do\<close> and what comes back. The
  body of a response is a stream: reading it gives its text or a read error.
\<close>

record http_request =
  Method :: string
  URL :: string
  Header :: "(string \<times> string) list"
  Body :: string

record http_response =
  StatusCode :: go_int
  Status :: string
  RespBody :: "string + string"

text \<open>The errors the client returns, one constructor per \<^verbatim>\<open>return nil, ...\<close> of the source.\<close>

datatype error =
    MarshalError string
  | RequestFailed string string
  | ReadError string
  | Non200 go_int string
  | ParseError string

text \<open>The lines written with \<^verbatim>\<open>log.Printf\<close>, by the arguments they print.\<close>

datatype log_entry =
    LogMakingRequest go_int string ResidentialSearchRequest
  | LogBody string
  | LogGotListings nat
  | LogSearchError ResidentialSearchRequest error
  | LogOpenError string
  | LogGlobError string

text \<open>
  The state the code acts on: the remote API (opaque, of type \<open>'u\<close>), the requests handed
  to the HTTP client so far (oldest first) and the log.
\<close>

record 'u world =
  upstream :: 'u
  requests :: "http_request list"
  log :: "log_entry list"

text \<open>
  The \<^verbatim>\<open>domainClient\<close>: its HTTP client (\<^verbatim>\<open>dc.c.Do\<close>), with the API key flag and the two
  \<^verbatim>\<open>encoding/json\<close> functions the client calls. \<^verbatim>\<open>http_Do\<close> answers a request from the
  state of the remote API and moves that state; a transport failure is \<open>Inl\<close>.
\<close>

record 'u domainClient =
  apiKey :: string
  json_Marshal :: "ResidentialSearchRequest \<Rightarrow> string + string"
  json_Decode :: "string \<Rightarrow> string + SearchResult list"
  http_Do :: "http_request \<Rightarrow> 'u \<Rightarrow> (string + http_response) \<times> 'u"

section \<open>The paginated fetcher\<close>

definition search_url :: string where
  "search_url = ''https://api.domain.com.au/v1/listings/residential/_search''"

text \<open>
  \<^verbatim>\<open>SearchResidentialPage\<close>: one page request. A Go result \<^verbatim>\<open>([]SearchResult, error)\<close> is
  a pair of a list (\<^verbatim>\<open>nil\<close> is the empty list) and an optional error.
  \<^verbatim>\<open>http.NewRequest\<close> is given a constant method and a constant URL and cannot fail.
  \<^verbatim>\<open>Header.Add\<close> stores a key in its canonical form, so the key added as \<^verbatim>\<open>accept\<close> is
  \<^verbatim>\<open>Accept\<close> in the request.
  The revisions of the file differ in this function by the text of the first log line only;
  the entry keeps every argument either of them prints.
\<close>

definition SearchResidentialPage ::
  "'u domainClient \<Rightarrow> ResidentialSearchRequest \<Rightarrow> 'u world
    \<Rightarrow> (SearchResult list \<times> error option) \<times> 'u world" where
  "SearchResidentialPage dc rsr w =
    (case json_Marshal dc rsr of
       Inl e \<Rightarrow> (([], Some (MarshalError e)), w)
     | Inr rsrJSON \<Rightarrow>
        (let req = \<lparr>Method = ''POST'', URL = search_url,
                    Header = [(''X-Api-Key'', apiKey dc), (''Accept'', ''application/json'')],
                    Body = rsrJSON\<rparr>;
             w1 = w\<lparr>log := log w @ [LogMakingRequest (PageNumber rsr) search_url rsr]\<rparr>;
             (r, u') = http_Do dc req (upstream w1);
             w2 = w1\<lparr>upstream := u', requests := requests w1 @ [req]\<rparr>
         in case r of
              Inl e \<Rightarrow> (([], Some (RequestFailed search_url e)), w2)
            | Inr resp \<Rightarrow>
               (if StatusCode resp \<noteq> 200 then
                  (case RespBody resp of
                     Inl e \<Rightarrow> (([], Some (ReadError e)), w2)
                   | Inr b \<Rightarrow>
                       (([], Some (Non200 (StatusCode resp) (Status resp))),
                        w2\<lparr>log := log w2 @ [LogBody b]\<rparr>))
                else
                  (case (case RespBody resp of Inl e \<Rightarrow> Inl e | Inr b \<Rightarrow> json_Decode dc b) of
                     Inl e \<Rightarrow> (([], Some (ParseError e)), w2)
                   | Inr listingsPage \<Rightarrow>
                       ((listingsPage, None),
                        w2\<lparr>log := log w2 @ [LogGotListings (length listingsPage)]\<rparr>)))))"

text \<open>
  The loop of \<^verbatim>\<open>SearchResidential\<close> in the revision with the \<^verbatim>\<open>/listings\<close> handler:
  \<^verbatim>\<open>for len(listings) < 1000 { ... }\<close>. Every iteration returns, breaks or lengthens
  \<^verbatim>\<open>listings\<close>, so \<open>1000 - length listings\<close> decreases.
\<close>

function SearchResidential_loop ::
  "'u domainClient \<Rightarrow> ResidentialSearchRequest \<Rightarrow> SearchResult list \<Rightarrow> 'u world
    \<Rightarrow> (SearchResult list \<times> error option) \<times> 'u world" where
  "SearchResidential_loop dc rsr listings w =
    (if length listings < 1000 then
       (case SearchResidentialPage dc rsr w of
          ((listingsPage, Some err), w') \<Rightarrow> (([], Some err), w')
        | ((listingsPage, None), w') \<Rightarrow>
            if length listingsPage = 0 then ((listings, None), w')
            else SearchResidential_loop dc (rsr\<lparr>PageNumber := PageNumber rsr + 1\<rparr>)
                   (listings @ listingsPage) w')
     else ((listings, None), w))"
  by pat_completeness auto
termination
  by (relation "measure (\<lambda>(dc, rsr, listings, w). 1000 - length listings)")
    (auto simp: neq_Nil_conv)

declare SearchResidential_loop.simps [simp del]

definition SearchResidential ::
  "'u domainClient \<Rightarrow> ResidentialSearchRequest \<Rightarrow> 'u world
    \<Rightarrow> (SearchResult list \<times> error option) \<times> 'u world" where
  "SearchResidential dc rsr w =
    SearchResidential_loop dc (rsr\<lparr>PageSize := 200, PageNumber := 0\<rparr>) [] w"

text \<open>
  The loop of \<^verbatim>\<open>SearchResidential\<close> in \<^verbatim>\<open>domain_exporter.go\<close>: \<^verbatim>\<open>for { ... }\<close> with no
  bound. It runs for as long as the pages are not empty, so not returning is the value
  \<open>None\<close>.
\<close>

partial_function (option) SearchResidential_uncapped_loop ::
  "'u domainClient \<Rightarrow> ResidentialSearchRequest \<Rightarrow> SearchResult list \<Rightarrow> 'u world
    \<Rightarrow> ((SearchResult list \<times> error option) \<times> 'u world) option" where
  "SearchResidential_uncapped_loop dc rsr listings w =
    (case SearchResidentialPage dc rsr w of
       ((listingsPage, Some err), w') \<Rightarrow> Some (([], Some err), w')
     | ((listingsPage, None), w') \<Rightarrow>
         if length listingsPage = 0 then Some ((listings, None), w')
         else SearchResidential_uncapped_loop dc (rsr\<lparr>PageNumber := PageNumber rsr + 1\<rparr>)
                (listings @ listingsPage) w')"

definition SearchResidential_uncapped ::
  "'u domainClient \<Rightarrow> ResidentialSearchRequest \<Rightarrow> 'u world
    \<Rightarrow> ((SearchResult list \<times> error option) \<times> 'u world) option" where
  "SearchResidential_uncapped dc rsr w =
    SearchResidential_uncapped_loop dc (rsr\<lparr>PageSize := 200, PageNumber := 0\<rparr>) [] w"

section \<open>The aggregator\<close>

text \<open>
  \<^verbatim>\<open>fmt.Sprintf("%v", n)\<close> for a signed machine integer: its decimal digits, with a minus
  sign when it is negative.
\<close>

definition digit_char :: "nat \<Rightarrow> char" where
  "digit_char d = ''0123456789'' ! d"

fun decimal :: "nat \<Rightarrow> string" where
  "decimal n = (if n < 10 then [digit_char n] else decimal (n div 10) @ [digit_char (n mod 10)])"

declare decimal.simps [simp del]

definition Sprintf_v :: "'a::len word \<Rightarrow> string" where
  "Sprintf_v c = (if sint c < 0 then ''-'' @ decimal (nat (- sint c)) else decimal (nat (sint c)))"

text \<open>
  \<^verbatim>\<open>fmt.Sprintf("%.1f", x)\<close> for a finite \<^verbatim>\<open>float32\<close>: \<^verbatim>\<open>strconv\<close> converts the exact
  binary value to decimal and rounds it to one digit after the point, a tie going to the
  even digit; the sign is printed for every negative value, also when it rounds to zero.
  \<open>tenths x\<close> is the magnitude of \<open>x\<close> in tenths, rounded.
\<close>

definition round_half_even :: "nat \<Rightarrow> nat \<Rightarrow> nat" where
  "round_half_even n d =
     (let q = n div d; r = n mod d
      in if d < 2 * r \<or> (2 * r = d \<and> odd q) then q + 1 else q)"

fun tenths :: "float32 \<Rightarrow> nat" where
  "tenths (Float32 s m e) =
     (if 0 \<le> e then 10 * m * 2 ^ nat e else round_half_even (10 * m) (2 ^ nat (- e)))"

definition Sprintf_1f :: "float32 \<Rightarrow> string" where
  "Sprintf_1f x =
     (let t = tenths x
      in (if sign x then ''-'' else []) @ decimal (t div 10) @ ''.'' @ [digit_char (t mod 10)])"

text \<open>
  The gauge vector \<^verbatim>\<open>domain_listing_count\<close>: one count per list of label values, in the
  order the label values were first seen. \<^verbatim>\<open>WithLabelValues(lvs...).Inc()\<close> adds one to
  the gauge of \<open>lvs\<close>, creating it at zero first. The six label values the code passes
  match the six label names of the vector and are strings from \<^verbatim>\<open>encoding/json\<close> or
  \<^verbatim>\<open>fmt\<close>, valid UTF-8, so \<^verbatim>\<open>WithLabelValues\<close> does not panic. A gauge holds a
  \<^verbatim>\<open>float64\<close>, exact on every count a process can reach, so counts are naturals.
\<close>

type_synonym GaugeVec = "(string list \<times> nat) list"

fun WithLabelValues_Inc :: "string list \<Rightarrow> GaugeVec \<Rightarrow> GaugeVec" where
  "WithLabelValues_Inc lvs [] = [(lvs, 1)]"
| "WithLabelValues_Inc lvs ((k, c) # g) =
     (if k = lvs then (k, c + 1) # g else (k, c) # WithLabelValues_Inc lvs g)"

text \<open>The label values of one listing, as both \<^verbatim>\<open>Collect\<close> and \<^verbatim>\<open>domainHandler\<close> compute them.\<close>

definition label_values :: "SearchResult \<Rightarrow> string list" where
  "label_values l =
     [PropertyType (PropertyDetails (Listing l)),
      pd_Suburb (PropertyDetails (Listing l)),
      Postcode (PropertyDetails (Listing l)),
      Sprintf_1f (Bedrooms (PropertyDetails (Listing l))),
      Sprintf_1f (Bathrooms (PropertyDetails (Listing l))),
      Sprintf_v (CarSpaces (PropertyDetails (Listing l)))]"

text \<open>The loop \<^verbatim>\<open>for _, l := range listings { listingCount.WithLabelValues(...).Inc() }\<close>.\<close>

fun count_listings :: "SearchResult list \<Rightarrow> GaugeVec \<Rightarrow> GaugeVec" where
  "count_listings [] g = g"
| "count_listings (l # ls) g = count_listings ls (WithLabelValues_Inc (label_values l) g)"

text \<open>The sum of all counts of a gauge vector.\<close>

definition total :: "GaugeVec \<Rightarrow> nat" where
  "total g = sum_list (map snd g)"

text \<open>
  The shapes of a label value: a plain integer is an optional minus sign and one digit or
  more; a number with one decimal place is a plain integer, a point and one digit.
\<close>

definition is_digit :: "char \<Rightarrow> bool" where
  "is_digit c = (c \<in> set ''0123456789'')"

definition unsigned_part :: "string \<Rightarrow> string" where
  "unsigned_part s = (case s of [] \<Rightarrow> [] | c # cs \<Rightarrow> if c = CHR ''-'' then cs else s)"

definition plain_integer :: "string \<Rightarrow> bool" where
  "plain_integer s = (unsigned_part s \<noteq> [] \<and> list_all is_digit (unsigned_part s))"

definition one_decimal_place :: "string \<Rightarrow> bool" where
  "one_decimal_place s =
     (case rev (unsigned_part s) of
        d # p # ds \<Rightarrow> is_digit d \<and> p = CHR ''.'' \<and> ds \<noteq> [] \<and> list_all is_digit ds
      | _ \<Rightarrow> False)"

text \<open>
  The numbers behind the label values. The value of a \<^verbatim>\<open>float32\<close> is its signed
  significand times the power of two of its exponent. A label value is read back as a
  number: \<open>read_integer\<close> reads a plain integer, \<open>read_tenths\<close> the magnitude in tenths of
  a number with one decimal place (its digits before the point and its digit after it),
  \<open>read_decimal\<close> its signed value; \<open>negative\<close> is the minus sign in front.
\<close>

definition float32_value :: "float32 \<Rightarrow> real" where
  "float32_value x = (if sign x then - 1 else 1) * real (mant x) * 2 powi expo x"

definition digit_value :: "char \<Rightarrow> nat" where
  "digit_value c = of_char c - 48"

definition digits_value :: "string \<Rightarrow> nat" where
  "digits_value s = foldl (\<lambda>a c. 10 * a + digit_value c) 0 s"

definition negative :: "string \<Rightarrow> bool" where
  "negative s = (case s of [] \<Rightarrow> False | c # cs \<Rightarrow> c = CHR ''-'')"

definition read_integer :: "string \<Rightarrow> int" where
  "read_integer s =
     (if negative s then - int (digits_value (unsigned_part s))
      else int (digits_value (unsigned_part s)))"

definition read_tenths :: "string \<Rightarrow> nat" where
  "read_tenths s =
     (let b = unsigned_part s
      in 10 * digits_value (take (length b - 2) b) + digit_value (last b))"

definition read_decimal :: "string \<Rightarrow> real" where
  "read_decimal s = (if negative s then - 1 else 1) * (real (read_tenths s) / 10)"

text \<open>
  The digits of a label value before its point, and that they are written without a
  leading zero (a lone \<^verbatim>\<open>0\<close> apart).
\<close>

definition integer_digits :: "string \<Rightarrow> string" where
  "integer_digits s = takeWhile is_digit (unsigned_part s)"

definition no_leading_zero :: "string \<Rightarrow> bool" where
  "no_leading_zero s =
     (case integer_digits s of [] \<Rightarrow> False | c # cs \<Rightarrow> cs = [] \<or> c \<noteq> CHR ''0'')"

section \<open>The request drivers\<close>

subsection \<open>On demand: the \<^verbatim>\<open>/listings\<close> handler\<close>

text \<open>
  \<^verbatim>\<open>r.URL.Query()\<close> is a \<^verbatim>\<open>url.Values\<close>, a map from a parameter name to its values;
  \<^verbatim>\<open>Get\<close> is the first value of a name, or the empty string.
\<close>

type_synonym url_Values = "string \<rightharpoonup> string list"

definition Get :: "url_Values \<Rightarrow> string \<Rightarrow> string" where
  "Get v key = (case v key of None \<Rightarrow> [] | Some [] \<Rightarrow> [] | Some (x # xs) \<Rightarrow> x)"

text \<open>The text of an error (\<^verbatim>\<open>err.Error()\<close>), as the \<^verbatim>\<open>fmt.Errorf\<close> calls build it.\<close>

fun error_text :: "error \<Rightarrow> string" where
  "error_text (MarshalError e) = e"
| "error_text (RequestFailed url e) = ''request to '' @ url @ '' failed: '' @ e"
| "error_text (ReadError e) = e"
| "error_text (Non200 code st) = ''got non-200 code: '' @ Sprintf_v code @ '', '' @ st"
| "error_text (ParseError e) = ''couldn'' @ [CHR 0x27] @ ''t parse json: '' @ e"

text \<open>
  What the handler writes to its \<^verbatim>\<open>http.ResponseWriter\<close>: a status and either a text or
  the exposition of the request's own registry, which holds the one gauge vector.
\<close>

datatype response_body = Text string | Metrics GaugeVec

record handler_response =
  status :: nat
  body :: response_body

text \<open>
  The value of the local \<^verbatim>\<open>rsr\<close> of \<^verbatim>\<open>domainHandler\<close>: the struct literal, with the
  fields it leaves out at their zero value.
\<close>

definition domainHandler_rsr :: "url_Values \<Rightarrow> ResidentialSearchRequest" where
  "domainHandler_rsr q =
     \<lparr>ListingType = ''Rent'',
      MinBedrooms = 0,
      MinBathrooms = 0,
      MinCarspaces = 0,
      PageSize = 0,
      PageNumber = 0,
      Locations =
        [\<lparr>State = Get q ''state'',
          Region = [],
          Area = [],
          Suburb = Get q ''suburb'',
          PostCode = Get q ''postCode'',
          IncludeSurroundingSuburbs = False\<rparr>]\<rparr>"

definition domainHandler ::
  "'u domainClient \<Rightarrow> url_Values \<Rightarrow> 'u world \<Rightarrow> handler_response \<times> 'u world" where
  "domainHandler dc q w =
     (let rsr = domainHandler_rsr q
      in case SearchResidential dc rsr w of
           ((listings, Some err), w') \<Rightarrow>
             (\<lparr>status = 500, body = Text (''error searching domain: '' @ error_text err)\<rparr>,
              w'\<lparr>log := log w' @ [LogSearchError rsr err]\<rparr>)
         | ((listings, None), w') \<Rightarrow>
             (\<lparr>status = 200, body = Metrics (count_listings listings [])\<rparr>, w'))"

subsection \<open>Batch: the collector of \<^verbatim>\<open>domain_exporter.go\<close>\<close>

text \<open>
  The files the collector reads: \<^verbatim>\<open>filepath.Glob\<close>, \<^verbatim>\<open>os.Open\<close> (the text of the file, or
  an error) and what \<^verbatim>\<open>json.NewDecoder(f).Decode(&rsr)\<close> leaves in a fresh \<^verbatim>\<open>rsr\<close>; the
  code drops the error of the decoder.
\<close>

record filesystem =
  fs_Glob :: "string \<Rightarrow> string + string list"
  fs_Open :: "string \<Rightarrow> string + string"
  json_DecodeRequest :: "string \<Rightarrow> ResidentialSearchRequest"

text \<open>
  The loop \<^verbatim>\<open>for _, m := range matches\<close> of \<^verbatim>\<open>Collect\<close>; \<open>None\<close> when a search does
  not return.
\<close>

fun Collect_matches ::
  "'u domainClient \<Rightarrow> filesystem \<Rightarrow> string list \<Rightarrow> GaugeVec \<Rightarrow> 'u world
    \<Rightarrow> (GaugeVec \<times> 'u world) option" where
  "Collect_matches dc fs [] listingCount w = Some (listingCount, w)"
| "Collect_matches dc fs (m # ms) listingCount w =
     (case fs_Open fs m of
        Inl err \<Rightarrow> Collect_matches dc fs ms listingCount (w\<lparr>log := log w @ [LogOpenError err]\<rparr>)
      | Inr f \<Rightarrow>
         (let rsr = json_DecodeRequest fs f
          in case SearchResidential_uncapped dc rsr w of
               None \<Rightarrow> None
             | Some ((listings, Some err), w') \<Rightarrow>
                 Collect_matches dc fs ms listingCount
                   (w'\<lparr>log := log w' @ [LogSearchError rsr err]\<rparr>)
             | Some ((listings, None), w') \<Rightarrow>
                 Collect_matches dc fs ms (count_listings listings listingCount) w'))"

text \<open>
  \<^verbatim>\<open>Collect\<close>: the gauge vector sent to the channel, or nothing when the glob fails.
\<close>

definition Collect ::
  "'u domainClient \<Rightarrow> filesystem \<Rightarrow> 'u world \<Rightarrow> (GaugeVec option \<times> 'u world) option" where
  "Collect dc fs w =
     (case fs_Glob fs ''searches/*.json'' of
        Inl err \<Rightarrow> Some (None, w\<lparr>log := log w @ [LogGlobError err]\<rparr>)
      | Inr matches \<Rightarrow>
         (case Collect_matches dc fs matches [] w of
            None \<Rightarrow> None
          | Some (listingCount, w') \<Rightarrow> Some (Some listingCount, w')))"

text \<open>
  One run of the loop of \<^verbatim>\<open>Collect\<close>, file by file, with what became of each file: it
  could not be opened (the \<^verbatim>\<open>continue\<close> after \<^verbatim>\<open>os.Open\<close>), its search failed (the
  \<^verbatim>\<open>continue\<close> after \<^verbatim>\<open>SearchResidential\<close>), or its search found listings. \<open>scrape dc fs
  ms w outs w'\<close>: from the world \<open>w\<close> the loop over the files \<open>ms\<close> runs to its end, in the
  world \<open>w'\<close>, with the outcomes \<open>outs\<close> in the order of the files. \<open>found\<close> is what one file
  contributes to the counts.
\<close>

datatype outcome =
    OpenFailed string
  | SearchFailed ResidentialSearchRequest error
  | Found "SearchResult list"

fun found :: "outcome \<Rightarrow> SearchResult list" where
  "found (Found listings) = listings"
| "found (OpenFailed err) = []"
| "found (SearchFailed rsr err) = []"

inductive scrape ::
  "'u domainClient \<Rightarrow> filesystem \<Rightarrow> string list \<Rightarrow> 'u world \<Rightarrow> outcome list \<Rightarrow> 'u world \<Rightarrow> bool"
  for dc fs where
    scrape_done: "scrape dc fs [] w [] w"
  | scrape_open_failed:
      "fs_Open fs m = Inl err \<Longrightarrow>
       scrape dc fs ms (w\<lparr>log := log w @ [LogOpenError err]\<rparr>) outs w' \<Longrightarrow>
       scrape dc fs (m # ms) w (OpenFailed err # outs) w'"
  | scrape_search_failed:
      "fs_Open fs m = Inr f \<Longrightarrow>
       SearchResidential_uncapped dc (json_DecodeRequest fs f) w = Some ((listings, Some err), w1) \<Longrightarrow>
       scrape dc fs ms (w1\<lparr>log := log w1 @ [LogSearchError (json_DecodeRequest fs f) err]\<rparr>) outs w' \<Longrightarrow>
       scrape dc fs (m # ms) w (SearchFailed (json_DecodeRequest fs f) err # outs) w'"
  | scrape_found:
      "fs_Open fs m = Inr f \<Longrightarrow>
       SearchResidential_uncapped dc (json_DecodeRequest fs f) w = Some ((listings, None), w1) \<Longrightarrow>
       scrape dc fs ms w1 outs w' \<Longrightarrow>
       scrape dc fs (m # ms) w (Found listings # outs) w'"

code_pred scrape .

section \<open>The call with its variables in a store\<close>

text \<open>
  \<^verbatim>\<open>SearchResidential\<close> once more, with the request structs held in variables: a store
  maps the address of a variable to its value. Go passes \<^verbatim>\<open>rsr\<close> by value: the call copies
  the caller's variable (at \<open>caller\<close>) into the parameter (at \<open>param\<close>, a variable of the
  callee), and every assignment of the body writes to the parameter. The \<^verbatim>\<open>Locations\<close>
  slice of the copy shares its elements with the caller's, and the body never writes to them.
\<close>

type_synonym addr = nat
type_synonym store = "addr \<Rightarrow> ResidentialSearchRequest"

function SearchResidential_store_loop ::
  "'u domainClient \<Rightarrow> addr \<Rightarrow> SearchResult list \<Rightarrow> store \<Rightarrow> 'u world
    \<Rightarrow> (SearchResult list \<times> error option) \<times> store \<times> 'u world" where
  "SearchResidential_store_loop dc param listings st w =
    (if length listings < 1000 then
       (case SearchResidentialPage dc (st param) w of
          ((listingsPage, Some err), w') \<Rightarrow> (([], Some err), st, w')
        | ((listingsPage, None), w') \<Rightarrow>
            if length listingsPage = 0 then ((listings, None), st, w')
            else SearchResidential_store_loop dc param (listings @ listingsPage)
                   (st(param := (st param)\<lparr>PageNumber := PageNumber (st param) + 1\<rparr>)) w')
     else ((listings, None), st, w))"
  by pat_completeness auto
termination
  by (relation "measure (\<lambda>(dc, param, listings, st, w). 1000 - length listings)")
    (auto simp: neq_Nil_conv)

declare SearchResidential_store_loop.simps [simp del]

definition SearchResidential_call ::
  "'u domainClient \<Rightarrow> addr \<Rightarrow> addr \<Rightarrow> store \<Rightarrow> 'u world
    \<Rightarrow> (SearchResult list \<times> error option) \<times> store \<times> 'u world" where
  "SearchResidential_call dc caller param st w =
    (let st1 = st(param := st caller);
         st2 = st1(param := (st1 param)\<lparr>PageSize := 200\<rparr>);
         st3 = st2(param := (st2 param)\<lparr>PageNumber := 0\<rparr>)
     in SearchResidential_store_loop dc param [] st3 w)"

text \<open>
  The same for the unbounded loop of \<^verbatim>\<open>domain_exporter.go\<close>.
\<close>

partial_function (option) SearchResidential_uncapped_store_loop ::
  "'u domainClient \<Rightarrow> addr \<Rightarrow> SearchResult list \<Rightarrow> store \<Rightarrow> 'u world
    \<Rightarrow> ((SearchResult list \<times> error option) \<times> store \<times> 'u world) option" where
  "SearchResidential_uncapped_store_loop dc param listings st w =
    (case SearchResidentialPage dc (st param) w of
       ((listingsPage, Some err), w') \<Rightarrow> Some (([], Some err), st, w')
     | ((listingsPage, None), w') \<Rightarrow>
         if length listingsPage = 0 then Some ((listings, None), st, w')
         else SearchResidential_uncapped_store_loop dc param (listings @ listingsPage)
                (st(param := (st param)\<lparr>PageNumber := PageNumber (st param) + 1\<rparr>)) w')"

definition SearchResidential_uncapped_call ::
  "'u domainClient \<Rightarrow> addr \<Rightarrow> addr \<Rightarrow> store \<Rightarrow> 'u world
    \<Rightarrow> ((SearchResult list \<times> error option) \<times> store \<times> 'u world) option" where
  "SearchResidential_uncapped_call dc caller param st w =
    (let st1 = st(param := st caller);
         st2 = st1(param := (st1 param)\<lparr>PageSize := 200\<rparr>);
         st3 = st2(param := (st2 param)\<lparr>PageNumber := 0\<rparr>)
     in SearchResidential_uncapped_store_loop dc param [] st3 w)"

section \<open>Example inputs\<close>

text \<open>
  A listing, a caller's criteria (with a page size and a page number of its own) and three
  remote APIs to run the code against. Their wire format is a stand-in for JSON: a request
  body is its page number in unary, a response body of \<open>n\<close> letters \<open>x\<close> holds \<open>n\<close> listings.
\<close>

definition example_listing :: SearchResult where
  "example_listing =
     \<lparr>Listing = \<lparr>PropertyDetails =
        \<lparr>pd_State = ''NSW'', PropertyType = ''House'',
         Bathrooms = Float32 False 10485760 (- 22), Bedrooms = Float32 False 12582912 (- 22),
         CarSpaces = 1, pd_Suburb = ''Pyrmont'', Postcode = ''2009''\<rparr>\<rparr>\<rparr>"

definition example_rsr :: ResidentialSearchRequest where
  "example_rsr =
     \<lparr>ListingType = ''Sale'', MinBedrooms = 2, MinBathrooms = 1, MinCarspaces = 0,
      PageSize = 50, PageNumber = 7,
      Locations = [\<lparr>State = ''NSW'', Region = [], Area = [], Suburb = ''Glebe'',
                    PostCode = ''2037'', IncludeSurroundingSuburbs = True\<rparr>]\<rparr>"

definition unary_page :: "ResidentialSearchRequest \<Rightarrow> string + string" where
  "unary_page r = Inr (replicate (unat (PageNumber r)) CHR ''p'')"

definition new_world :: "'u \<Rightarrow> 'u world" where
  "new_world u = \<lparr>upstream = u, requests = [], log = []\<rparr>"

text \<open>An API that holds \<open>recs\<close> and serves them in pages of \<open>P\<close>, whatever page is asked.\<close>

definition paged_client :: "nat \<Rightarrow> SearchResult list \<Rightarrow> unit domainClient" where
  "paged_client P recs =
     \<lparr>apiKey = ''secret'',
      json_Marshal = unary_page,
      json_Decode = (\<lambda>b. Inr (take P (drop (length b * P) recs))),
      http_Do = (\<lambda>req u. (Inr \<lparr>StatusCode = 200, Status = ''200 OK'', RespBody = Inr (Body req)\<rparr>, u))\<rparr>"

text \<open>
  The API as the source describes it (\<^verbatim>\<open>Cannot page beyond 1000 records\<close>): pages of 200,
  and status 400 for a page that ends beyond the first 1000 records.
\<close>

definition limited_client :: "SearchResult list \<Rightarrow> unit domainClient" where
  "limited_client recs =
     \<lparr>apiKey = ''secret'',
      json_Marshal = unary_page,
      json_Decode = (\<lambda>b. Inr (take 200 (drop (length b * 200) recs))),
      http_Do = (\<lambda>req u.
        if length (Body req) * 200 + 200 \<le> 1000
        then (Inr \<lparr>StatusCode = 200, Status = ''200 OK'', RespBody = Inr (Body req)\<rparr>, u)
        else (Inr \<lparr>StatusCode = 400, Status = ''400 Bad Request'',
                   RespBody = Inr ''Cannot page beyond 1000 records''\<rparr>, u))\<rparr>"

text \<open>An API that plays a script: its state is the list of the answers it still has to give.\<close>

definition scripted_client :: "(string + http_response) list domainClient" where
  "scripted_client =
     \<lparr>apiKey = ''secret'',
      json_Marshal = unary_page,
      json_Decode = (\<lambda>b. if list_all (\<lambda>c. c = CHR ''x'') b
                          then Inr (replicate (length b) example_listing)
                          else Inl ''invalid character''),
      http_Do = (\<lambda>req u. case u of [] \<Rightarrow> (Inl ''connection refused'', []) | r # rs \<Rightarrow> (r, rs))\<rparr>"

definition ok_response :: "string \<Rightarrow> string + http_response" where
  "ok_response b = Inr \<lparr>StatusCode = 200, Status = ''200 OK'', RespBody = Inr b\<rparr>"

definition server_error :: "string + http_response" where
  "server_error =
     Inr \<lparr>StatusCode = 500, Status = ''500 Internal Server Error'', RespBody = Inr ''oops''\<rparr>"

text \<open>Two criteria files; the decoder reads the listing type from the text of the file.\<close>

definition two_files :: filesystem where
  "two_files =
     \<lparr>fs_Glob = (\<lambda>pattern. Inr [''searches/a.json'', ''searches/b.json'']),
      fs_Open = (\<lambda>path. Inr (if path = ''searches/a.json'' then ''Rent'' else ''Sale'')),
      json_DecodeRequest = (\<lambda>f. example_rsr\<lparr>ListingType := f\<rparr>)\<rparr>"

text \<open>
  The number of page requests as the specification words it: \<open>ceil(N/P)\<close>, plus one when
  \<open>N\<close> is a nonzero multiple of \<open>P\<close>.
\<close>

definition spec_page_requests :: "nat \<Rightarrow> nat \<Rightarrow> nat" where
  "spec_page_requests N P = (N + P - 1) div P + (if 0 < N \<and> N mod P = 0 then 1 else 0)"

section \<open>Properties of the aggregator\<close>

lemma total_Inc: "total (WithLabelValues_Inc lvs g) = total g + 1"
  by (induction g) (auto simp: total_def)

lemma total_count_listings: "total (count_listings ls g) = total g + length ls"
  by (induction ls arbitrary: g) (simp_all add: total_Inc)

lemma keys_Inc: "fst ` set (WithLabelValues_Inc lvs g) = insert lvs (fst ` set g)"
  by (induction lvs g rule: WithLabelValues_Inc.induct) force+

lemma distinct_Inc: "distinct (map fst g) \<Longrightarrow> distinct (map fst (WithLabelValues_Inc lvs g))"
proof (induction g)
  case Nil
  then show ?case by simp
next
  case (Cons a g)
  obtain k c where a: "a = (k, c)" by (cases a)
  from Cons show ?case
    using keys_Inc [of lvs g] by (auto simp: a)
qed

lemma distinct_count_listings:
  "distinct (map fst g) \<Longrightarrow> distinct (map fst (count_listings ls g))"
  by (induction ls arbitrary: g) (simp_all add: distinct_Inc)

lemma map_of_Inc:
  "map_of (WithLabelValues_Inc lvs g) k =
     (if k = lvs then Some (case map_of g lvs of None \<Rightarrow> 1 | Some c \<Rightarrow> c + 1) else map_of g k)"
  by (induction lvs g rule: WithLabelValues_Inc.induct) auto

lemma map_of_count_listings:
  "map_of (count_listings ls g) k =
     (if count_list (map label_values ls) k = 0 then map_of g k
      else Some (count_list (map label_values ls) k
                  + (case map_of g k of None \<Rightarrow> 0 | Some c \<Rightarrow> c)))"
proof (induction ls arbitrary: g)
  case Nil
  then show ?case by simp
next
  case (Cons l ls)
  show ?case
    by (simp add: Cons.IH map_of_Inc split: option.splits)
qed

text \<open>
  C3. Counting a sequence of \<open>N\<close> listings into a fresh gauge vector gives counts that sum
  to \<open>N\<close>: the vector has one entry per distinct key, the count of a key is the number of
  listings that have it, and the empty sequence leaves the vector empty.
\<close>

theorem aggregation_total:
  "total (count_listings ls []) = length ls
   \<and> distinct (map fst (count_listings ls []))
   \<and> map_of (count_listings ls []) k =
       (if count_list (map label_values ls) k = 0 then None
        else Some (count_list (map label_values ls) k))
   \<and> count_listings [] [] = []"
  using total_count_listings [of ls "[]"] distinct_count_listings [of "[]" ls]
    map_of_count_listings [of ls "[]" k]
  by (simp add: total_def)

lemma is_digit_digit_char: "d < 10 \<Longrightarrow> is_digit (digit_char d)"
proof -
  assume "d < 10"
  then have "d \<in> {0, 1, 2, 3, 4, 5, 6, 7, 8, 9}" by auto
  then show ?thesis
    by (auto simp: is_digit_def digit_char_def)
qed

lemma decimal_digits: "list_all is_digit (decimal n)"
proof (induction n rule: decimal.induct)
  case (1 n)
  show ?case
  proof (cases "n < 10")
    case True
    then show ?thesis by (simp add: decimal.simps [of n] is_digit_digit_char)
  next
    case False
    with 1 show ?thesis by (simp add: decimal.simps [of n] is_digit_digit_char)
  qed
qed

lemma decimal_nonempty: "decimal n \<noteq> []"
  by (simp add: decimal.simps [of n])

lemma unsigned_part_digits: "list_all is_digit s \<Longrightarrow> unsigned_part s = s"
  by (cases s) (auto simp: unsigned_part_def is_digit_def)

lemma plain_integer_Sprintf_v: "plain_integer (Sprintf_v c)"
proof (cases "sint c < 0")
  case True
  then have "unsigned_part (Sprintf_v c) = decimal (nat (- sint c))"
    by (simp add: Sprintf_v_def unsigned_part_def)
  then show ?thesis
    by (simp add: plain_integer_def decimal_digits decimal_nonempty)
next
  case False
  then have "unsigned_part (Sprintf_v c) = decimal (nat (sint c))"
    by (simp add: Sprintf_v_def unsigned_part_digits decimal_digits)
  then show ?thesis
    by (simp add: plain_integer_def decimal_digits decimal_nonempty)
qed

lemma one_decimal_place_Sprintf_1f: "one_decimal_place (Sprintf_1f x)"
proof -
  define t where "t = tenths x"
  define shown where "shown = decimal (t div 10) @ ''.'' @ [digit_char (t mod 10)]"
  have digs: "list_all is_digit (decimal (t div 10))" and ne: "decimal (t div 10) \<noteq> []"
    by (simp_all add: decimal_digits decimal_nonempty)
  obtain c cs where dec: "decimal (t div 10) = c # cs"
    using ne by (cases "decimal (t div 10)") auto
  have c: "c \<noteq> CHR ''-''"
    using digs by (auto simp: dec is_digit_def)
  have u: "unsigned_part (Sprintf_1f x) = shown"
    by (cases "sign x")
      (simp_all add: Sprintf_1f_def unsigned_part_def t_def [symmetric] shown_def dec c)
  have r: "rev shown = digit_char (t mod 10) # CHR ''.'' # rev (decimal (t div 10))"
    by (simp add: shown_def)
  show ?thesis
    using digs ne by (simp add: one_decimal_place_def u r is_digit_digit_char)
qed

lemma digit_value_digit_char: "d < 10 \<Longrightarrow> digit_value (digit_char d) = d"
proof -
  assume "d < 10"
  then have "d \<in> {0, 1, 2, 3, 4, 5, 6, 7, 8, 9}" by auto
  then show ?thesis
    by (auto simp: digit_value_def digit_char_def)
qed

lemma digits_value_snoc: "digits_value (s @ [c]) = 10 * digits_value s + digit_value c"
  by (simp add: digits_value_def)

lemma digits_value_decimal: "digits_value (decimal n) = n"
proof (induction n rule: decimal.induct)
  case (1 n)
  show ?case
  proof (cases "n < 10")
    case True
    then show ?thesis
      by (simp add: decimal.simps [of n] digits_value_def digit_value_digit_char)
  next
    case False
    with 1 show ?thesis
      by (simp add: decimal.simps [of n] digits_value_snoc digit_value_digit_char)
  qed
qed

lemma negative_decimal: "\<not> negative (decimal n @ s)"
proof -
  obtain c cs where dec: "decimal n = c # cs"
    using decimal_nonempty [of n] by (cases "decimal n") auto
  have "is_digit c" using decimal_digits [of n] by (simp add: dec)
  then have "c \<noteq> CHR ''-''" by (auto simp: is_digit_def)
  then show ?thesis by (simp add: negative_def dec)
qed

lemma unsigned_part_decimal: "unsigned_part (decimal n @ s) = decimal n @ s"
proof -
  obtain c cs where dec: "decimal n = c # cs"
    using decimal_nonempty [of n] by (cases "decimal n") auto
  have "is_digit c" using decimal_digits [of n] by (simp add: dec)
  then have "c \<noteq> CHR ''-''" by (auto simp: is_digit_def)
  then show ?thesis by (simp add: unsigned_part_def dec)
qed

lemma read_integer_Sprintf_v: "read_integer (Sprintf_v c) = sint c"
proof (cases "sint c < 0")
  case True
  then show ?thesis
    by (simp add: read_integer_def Sprintf_v_def negative_def unsigned_part_def digits_value_decimal)
next
  case False
  then show ?thesis
    using negative_decimal [of "nat (sint c)" "[]"] unsigned_part_decimal [of "nat (sint c)" "[]"]
    by (simp add: read_integer_def Sprintf_v_def digits_value_decimal)
qed

lemma negative_Sprintf_1f: "negative (Sprintf_1f x) = sign x"
  using negative_decimal [of "tenths x div 10" "''.'' @ [digit_char (tenths x mod 10)]"]
  by (cases "sign x") (simp_all add: Sprintf_1f_def negative_def Let_def)

lemma unsigned_part_Sprintf_1f:
  "unsigned_part (Sprintf_1f x) =
     decimal (tenths x div 10) @ ''.'' @ [digit_char (tenths x mod 10)]"
  using unsigned_part_decimal [of "tenths x div 10" "''.'' @ [digit_char (tenths x mod 10)]"]
  by (cases "sign x") (simp_all add: Sprintf_1f_def unsigned_part_def Let_def)

lemma read_tenths_Sprintf_1f: "read_tenths (Sprintf_1f x) = tenths x"
  by (simp add: read_tenths_def unsigned_part_Sprintf_1f digits_value_decimal
      digit_value_digit_char)

lemma round_half_even_nearest:
  assumes d: "0 < d"
  shows "2 * \<bar>int (round_half_even n d) * int d - int n\<bar> \<le> int d"
    and "2 * \<bar>int (round_half_even n d) * int d - int n\<bar> < int d \<or> even (round_half_even n d)"
proof -
  define q r where "q = n div d" and "r = n mod d"
  have n: "int n = int q * int d + int r"
    unfolding q_def r_def by (metis div_mult_mod_eq of_nat_add of_nat_mult)
  have r: "r < d" unfolding r_def using d by simp
  show "2 * \<bar>int (round_half_even n d) * int d - int n\<bar> \<le> int d"
    using r by (auto simp: round_half_even_def Let_def q_def [symmetric] r_def [symmetric] n
        algebra_simps)
  show "2 * \<bar>int (round_half_even n d) * int d - int n\<bar> < int d \<or> even (round_half_even n d)"
    using r by (auto simp: round_half_even_def Let_def q_def [symmetric] r_def [symmetric] n
        algebra_simps)
qed

lemma round_half_even_real:
  assumes d: "0 < d"
  shows "\<bar>real (round_half_even n d) - real n / real d\<bar> \<le> 1 / 2"
    and "\<bar>real (round_half_even n d) - real n / real d\<bar> < 1 / 2 \<or> even (round_half_even n d)"
proof -
  let ?t = "round_half_even n d"
  have dr: "0 < real d" using d by simp
  have eq: "\<bar>real ?t - real n / real d\<bar> = real_of_int \<bar>int ?t * int d - int n\<bar> / real d"
  proof -
    have "real ?t - real n / real d = (real ?t * real d - real n) / real d"
      using dr by (simp add: field_simps)
    also have "\<bar>\<dots>\<bar> = \<bar>real ?t * real d - real n\<bar> / real d"
      using dr by simp
    also have "real ?t * real d - real n = real_of_int (int ?t * int d - int n)" by simp
    finally show ?thesis by simp
  qed
  from round_half_even_nearest(1) [OF d, of n]
  have "real_of_int (2 * \<bar>int ?t * int d - int n\<bar>) \<le> real_of_int (int d)"
    by (simp only: of_int_le_iff)
  then have le: "2 * real_of_int \<bar>int ?t * int d - int n\<bar> \<le> real d" by simp
  show "\<bar>real ?t - real n / real d\<bar> \<le> 1 / 2"
    unfolding eq using le dr by (simp add: field_simps)
  from round_half_even_nearest(2) [OF d, of n]
  show "\<bar>real ?t - real n / real d\<bar> < 1 / 2 \<or> even ?t"
  proof
    assume "2 * \<bar>int ?t * int d - int n\<bar> < int d"
    then have "real_of_int (2 * \<bar>int ?t * int d - int n\<bar>) < real_of_int (int d)"
      by (simp only: of_int_less_iff)
    then have "2 * real_of_int \<bar>int ?t * int d - int n\<bar> < real d" by simp
    then have "\<bar>real ?t - real n / real d\<bar> < 1 / 2"
      unfolding eq using dr by (simp add: field_simps)
    then show ?thesis ..
  next
    assume "even ?t"
    then show ?thesis ..
  qed
qed

lemma tenths_nearest:
  "\<bar>real (tenths x) / 10 - real (mant x) * 2 powi expo x\<bar> \<le> 1 / 20"
  "\<bar>real (tenths x) / 10 - real (mant x) * 2 powi expo x\<bar> < 1 / 20 \<or> even (tenths x)"
proof -
  obtain s m e where x: "x = Float32 s m e" by (cases x)
  show "\<bar>real (tenths x) / 10 - real (mant x) * 2 powi expo x\<bar> \<le> 1 / 20"
  proof (cases "0 \<le> e")
    case True
    then show ?thesis by (simp add: x power_int_def)
  next
    case False
    define d :: nat where "d = 2 ^ nat (- e)"
    have d: "0 < d" by (simp add: d_def)
    have pw: "(2::real) powi e = 1 / real d"
      using False by (simp add: power_int_def d_def field_simps)
    have t: "tenths (Float32 s m e) = round_half_even (10 * m) d" using False by (simp add: d_def)
    from round_half_even_real(1) [OF d, of "10 * m"]
    show ?thesis by (simp add: x pw t field_simps del: tenths.simps)
  qed
  show "\<bar>real (tenths x) / 10 - real (mant x) * 2 powi expo x\<bar> < 1 / 20 \<or> even (tenths x)"
  proof (cases "0 \<le> e")
    case True
    then show ?thesis by (simp add: x power_int_def)
  next
    case False
    define d :: nat where "d = 2 ^ nat (- e)"
    have d: "0 < d" by (simp add: d_def)
    have pw: "(2::real) powi e = 1 / real d"
      using False by (simp add: power_int_def d_def field_simps)
    have t: "tenths (Float32 s m e) = round_half_even (10 * m) d" using False by (simp add: d_def)
    from round_half_even_real(2) [OF d, of "10 * m"]
    show ?thesis by (auto simp: x pw t field_simps simp del: tenths.simps)
  qed
qed

lemma Sprintf_1f_value:
  "negative (Sprintf_1f x) = sign x"
  "\<bar>read_decimal (Sprintf_1f x) - float32_value x\<bar> \<le> 1 / 20"
  "\<bar>read_decimal (Sprintf_1f x) - float32_value x\<bar> < 1 / 20 \<or> even (read_tenths (Sprintf_1f x))"
proof -
  show "negative (Sprintf_1f x) = sign x" by (rule negative_Sprintf_1f)
  have diff: "\<bar>read_decimal (Sprintf_1f x) - float32_value x\<bar> =
      \<bar>real (tenths x) / 10 - real (mant x) * 2 powi expo x\<bar>"
    by (cases "sign x")
      (simp_all add: read_decimal_def float32_value_def negative_Sprintf_1f read_tenths_Sprintf_1f
        abs_minus_commute)
  show "\<bar>read_decimal (Sprintf_1f x) - float32_value x\<bar> \<le> 1 / 20"
    unfolding diff by (rule tenths_nearest)
  show "\<bar>read_decimal (Sprintf_1f x) - float32_value x\<bar> < 1 / 20 \<or> even (read_tenths (Sprintf_1f x))"
    unfolding diff read_tenths_Sprintf_1f by (rule tenths_nearest)
qed

lemma digit_char_zero: "d < 10 \<Longrightarrow> (digit_char d = CHR ''0'') = (d = 0)"
proof -
  assume "d < 10"
  then have "d \<in> {0, 1, 2, 3, 4, 5, 6, 7, 8, 9}" by auto
  then show ?thesis
    by (auto simp: digit_char_def)
qed

lemma decimal_hd: "0 < n \<Longrightarrow> hd (decimal n) \<noteq> CHR ''0''"
proof (induction n rule: decimal.induct)
  case (1 n)
  show ?case
  proof (cases "n < 10")
    case True
    with 1 show ?thesis by (simp add: decimal.simps [of n] digit_char_zero)
  next
    case False
    then have "0 < n div 10" by simp
    with 1 False show ?thesis
      by (simp add: decimal.simps [of n] decimal_nonempty)
  qed
qed

lemma decimal_canonical:
  "(case decimal n of [] \<Rightarrow> False | c # cs \<Rightarrow> cs = [] \<or> c \<noteq> CHR ''0'')"
proof (cases "n = 0")
  case True
  then show ?thesis by (simp add: decimal.simps [of 0])
next
  case False
  then have "hd (decimal n) \<noteq> CHR ''0''" by (simp add: decimal_hd)
  then show ?thesis using decimal_nonempty [of n] by (cases "decimal n") auto
qed

lemma takeWhile_decimal: "takeWhile is_digit (decimal n @ CHR ''.'' # s) = decimal n"
proof -
  have "\<forall>c \<in> set (decimal n). is_digit c"
    using decimal_digits [of n] by (simp add: list_all_iff)
  moreover have "\<not> is_digit CHR ''.''" by (simp add: is_digit_def)
  ultimately show ?thesis by (simp add: takeWhile_append2)
qed

lemma takeWhile_decimal_all: "takeWhile is_digit (decimal n) = decimal n"
  using decimal_digits [of n] by (simp add: list_all_iff)

lemma no_leading_zero_Sprintf_1f: "no_leading_zero (Sprintf_1f x)"
  using decimal_canonical [of "tenths x div 10"]
  by (simp add: no_leading_zero_def integer_digits_def unsigned_part_Sprintf_1f takeWhile_decimal)

lemma no_leading_zero_Sprintf_v: "no_leading_zero (Sprintf_v c)"
proof (cases "sint c < 0")
  case True
  then have "unsigned_part (Sprintf_v c) = decimal (nat (- sint c))"
    by (simp add: Sprintf_v_def unsigned_part_def)
  then show ?thesis
    using decimal_canonical [of "nat (- sint c)"]
    by (simp add: no_leading_zero_def integer_digits_def takeWhile_decimal_all)
next
  case False
  then have "unsigned_part (Sprintf_v c) = decimal (nat (sint c))"
    by (simp add: Sprintf_v_def unsigned_part_digits decimal_digits)
  then show ?thesis
    using decimal_canonical [of "nat (sint c)"]
    by (simp add: no_leading_zero_def integer_digits_def takeWhile_decimal_all)
qed

text \<open>
  C5. The bedroom and bathroom label values of every listing are the listing's counts
  formatted with exactly one decimal place, and the car-space label value is the count as a
  plain integer. In shape: digits, a point and one digit, with a minus sign in front for a
  negative count; digits alone for the car spaces. In value: the bedroom and bathroom label
  values have the sign of the count and, read back as numbers, are the tenth nearest to it
  (at most one twentieth away, and exactly one twentieth away only at the even tenth); the
  car-space label value read back is the count; none is written with a leading zero. A
  listing with 3.0 bedrooms, 2.5 bathrooms (as \<^verbatim>\<open>float32\<close>: significands \<open>12582912\<close> and
  \<open>10485760\<close> at exponent \<open>-22\<close>) and 1 car space has the label values \<^verbatim>\<open>"3.0"\<close>,
  \<^verbatim>\<open>"2.5"\<close>, \<^verbatim>\<open>"1"\<close>; the ties 0.25 and -0.75 give \<^verbatim>\<open>"0.2"\<close> and \<^verbatim>\<open>"-0.8"\<close>, and
  -1/128 and 1543.125 give \<^verbatim>\<open>"-0.0"\<close> and \<^verbatim>\<open>"1543.1"\<close>.
\<close>

theorem label_formatting:
  "one_decimal_place (label_values l ! 3)
   \<and> one_decimal_place (label_values l ! 4)
   \<and> plain_integer (label_values l ! 5)
   \<and> label_values l ! 3 = Sprintf_1f (Bedrooms (PropertyDetails (Listing l)))
   \<and> label_values l ! 4 = Sprintf_1f (Bathrooms (PropertyDetails (Listing l)))
   \<and> label_values l ! 5 = Sprintf_v (CarSpaces (PropertyDetails (Listing l)))
   \<and> drop 3 (label_values
        \<lparr>Listing = \<lparr>PropertyDetails =
          pd\<lparr>Bedrooms := Float32 False 12582912 (- 22),
             Bathrooms := Float32 False 10485760 (- 22),
             CarSpaces := 1\<rparr>\<rparr>\<rparr>) = [''3.0'', ''2.5'', ''1'']
   \<and> negative (label_values l ! 3) = sign (Bedrooms (PropertyDetails (Listing l)))
   \<and> \<bar>read_decimal (label_values l ! 3) - float32_value (Bedrooms (PropertyDetails (Listing l)))\<bar>
        \<le> 1 / 20
   \<and> (\<bar>read_decimal (label_values l ! 3) - float32_value (Bedrooms (PropertyDetails (Listing l)))\<bar>
        < 1 / 20 \<or> even (read_tenths (label_values l ! 3)))
   \<and> no_leading_zero (label_values l ! 3)
   \<and> negative (label_values l ! 4) = sign (Bathrooms (PropertyDetails (Listing l)))
   \<and> \<bar>read_decimal (label_values l ! 4) - float32_value (Bathrooms (PropertyDetails (Listing l)))\<bar>
        \<le> 1 / 20
   \<and> (\<bar>read_decimal (label_values l ! 4) - float32_value (Bathrooms (PropertyDetails (Listing l)))\<bar>
        < 1 / 20 \<or> even (read_tenths (label_values l ! 4)))
   \<and> no_leading_zero (label_values l ! 4)
   \<and> read_integer (label_values l ! 5) = sint (CarSpaces (PropertyDetails (Listing l)))
   \<and> no_leading_zero (label_values l ! 5)
   \<and> drop 3 (label_values
        \<lparr>Listing = \<lparr>PropertyDetails =
          pd\<lparr>Bedrooms := Float32 False 8388608 (- 25),
             Bathrooms := Float32 True 12582912 (- 24),
             CarSpaces := - 12\<rparr>\<rparr>\<rparr>) = [''0.2'', ''-0.8'', ''-12'']
   \<and> drop 3 (label_values
        \<lparr>Listing = \<lparr>PropertyDetails =
          pd\<lparr>Bedrooms := Float32 True 8388608 (- 30),
             Bathrooms := Float32 False 12641280 (- 13),
             CarSpaces := 0\<rparr>\<rparr>\<rparr>) = [''-0.0'', ''1543.1'', ''0'']"
proof -
  have fields: "label_values l ! 3 = Sprintf_1f (Bedrooms (PropertyDetails (Listing l)))"
    "label_values l ! 4 = Sprintf_1f (Bathrooms (PropertyDetails (Listing l)))"
    "label_values l ! 5 = Sprintf_v (CarSpaces (PropertyDetails (Listing l)))"
    by (simp_all add: label_values_def)
  have shape: "one_decimal_place (label_values l ! 3)" "one_decimal_place (label_values l ! 4)"
    "plain_integer (label_values l ! 5)"
    unfolding fields
    by (rule one_decimal_place_Sprintf_1f, rule one_decimal_place_Sprintf_1f,
        rule plain_integer_Sprintf_v)
  have canonical: "no_leading_zero (label_values l ! 3)" "no_leading_zero (label_values l ! 4)"
    "no_leading_zero (label_values l ! 5)"
    unfolding fields
    by (rule no_leading_zero_Sprintf_1f, rule no_leading_zero_Sprintf_1f,
        rule no_leading_zero_Sprintf_v)
  have bedrooms:
    "negative (label_values l ! 3) = sign (Bedrooms (PropertyDetails (Listing l)))"
    "\<bar>read_decimal (label_values l ! 3) - float32_value (Bedrooms (PropertyDetails (Listing l)))\<bar>
        \<le> 1 / 20"
    "\<bar>read_decimal (label_values l ! 3) - float32_value (Bedrooms (PropertyDetails (Listing l)))\<bar>
        < 1 / 20 \<or> even (read_tenths (label_values l ! 3))"
    unfolding fields by (rule Sprintf_1f_value)+
  have bathrooms:
    "negative (label_values l ! 4) = sign (Bathrooms (PropertyDetails (Listing l)))"
    "\<bar>read_decimal (label_values l ! 4) - float32_value (Bathrooms (PropertyDetails (Listing l)))\<bar>
        \<le> 1 / 20"
    "\<bar>read_decimal (label_values l ! 4) - float32_value (Bathrooms (PropertyDetails (Listing l)))\<bar>
        < 1 / 20 \<or> even (read_tenths (label_values l ! 4))"
    unfolding fields by (rule Sprintf_1f_value)+
  have carspaces: "read_integer (label_values l ! 5) = sint (CarSpaces (PropertyDetails (Listing l)))"
    unfolding fields by (rule read_integer_Sprintf_v)
  have floats: "Sprintf_1f (Float32 False 12582912 (- 22)) = ''3.0''"
    "Sprintf_1f (Float32 False 10485760 (- 22)) = ''2.5''"
    "Sprintf_1f (Float32 False 8388608 (- 25)) = ''0.2''"
    "Sprintf_1f (Float32 True 12582912 (- 24)) = ''-0.8''"
    "Sprintf_1f (Float32 True 8388608 (- 30)) = ''-0.0''"
    "Sprintf_1f (Float32 False 12641280 (- 13)) = ''1543.1''"
    by (simp_all add: Sprintf_1f_def round_half_even_def decimal.simps digit_char_def)
  have ints: "Sprintf_v (1 :: int32) = ''1''" "Sprintf_v (- 12 :: int32) = ''-12''"
    "Sprintf_v (0 :: int32) = ''0''"
    by (simp_all add: Sprintf_v_def decimal.simps digit_char_def)
  have inst: "drop 3 (label_values
        \<lparr>Listing = \<lparr>PropertyDetails =
          pd\<lparr>Bedrooms := Float32 False 12582912 (- 22),
             Bathrooms := Float32 False 10485760 (- 22),
             CarSpaces := 1\<rparr>\<rparr>\<rparr>) = [''3.0'', ''2.5'', ''1'']"
    "drop 3 (label_values
        \<lparr>Listing = \<lparr>PropertyDetails =
          pd\<lparr>Bedrooms := Float32 False 8388608 (- 25),
             Bathrooms := Float32 True 12582912 (- 24),
             CarSpaces := - 12\<rparr>\<rparr>\<rparr>) = [''0.2'', ''-0.8'', ''-12'']"
    "drop 3 (label_values
        \<lparr>Listing = \<lparr>PropertyDetails =
          pd\<lparr>Bedrooms := Float32 True 8388608 (- 30),
             Bathrooms := Float32 False 12641280 (- 13),
             CarSpaces := 0\<rparr>\<rparr>\<rparr>) = [''-0.0'', ''1543.1'', ''0'']"
    by (simp_all add: label_values_def floats ints)
  from shape fields inst bedrooms bathrooms carspaces canonical show ?thesis by blast
qed

section \<open>Properties of the fetcher\<close>

subsection \<open>One page request\<close>

lemma page_marshal_error:
  "json_Marshal dc rsr = Inl x \<Longrightarrow>
   SearchResidentialPage dc rsr w = (([], Some (MarshalError x)), w)"
  by (simp add: SearchResidentialPage_def)

lemma page_error_nil:
  "SearchResidentialPage dc rsr w = ((lp, Some err), w') \<Longrightarrow> lp = []"
  by (auto simp: SearchResidentialPage_def Let_def split: sum.splits prod.splits if_splits)

lemma page_requests:
  "json_Marshal dc rsr = Inr j \<Longrightarrow>
   requests (snd (SearchResidentialPage dc rsr w)) =
     requests w @ [\<lparr>Method = ''POST'', URL = search_url,
        Header = [(''X-Api-Key'', apiKey dc), (''Accept'', ''application/json'')], Body = j\<rparr>]"
  by (auto simp: SearchResidentialPage_def Let_def split: sum.splits prod.splits if_splits)

lemma page_ok_marshal:
  "SearchResidentialPage dc rsr w = ((lp, None), w') \<Longrightarrow> \<exists>j. json_Marshal dc rsr = Inr j"
  by (cases "json_Marshal dc rsr") (auto simp: SearchResidentialPage_def)

lemma page_ok_requests:
  assumes "SearchResidentialPage dc rsr w = ((lp, None), w')"
  shows "\<exists>req. requests w' = requests w @ [req] \<and> json_Marshal dc rsr = Inr (Body req)"
proof -
  from assms obtain j where j: "json_Marshal dc rsr = Inr j"
    using page_ok_marshal by blast
  from page_requests [OF j, of w] assms show ?thesis
    by (simp add: j)
qed

lemma page_requests_cases:
  assumes "SearchResidentialPage dc rsr w = (res, w')"
  shows "(requests w' = requests w \<and> snd res \<noteq> None \<and> (\<exists>x. json_Marshal dc rsr = Inl x))
       \<or> (\<exists>req. requests w' = requests w @ [req] \<and> json_Marshal dc rsr = Inr (Body req))"
proof (cases "json_Marshal dc rsr")
  case (Inl x)
  with assms show ?thesis by (auto simp: page_marshal_error)
next
  case (Inr j)
  from page_requests [OF Inr, of w] assms show ?thesis
    by (simp add: Inr)
qed

lemma page_transport_failure:
  assumes "json_Marshal dc rsr = Inr j"
    and "fst (http_Do dc \<lparr>Method = ''POST'', URL = search_url,
        Header = [(''X-Api-Key'', apiKey dc), (''Accept'', ''application/json'')], Body = j\<rparr>
        (upstream w)) = Inl e"
  shows "fst (SearchResidentialPage dc rsr w) = ([], Some (RequestFailed search_url e))"
  using assms by (auto simp: SearchResidentialPage_def Let_def split: sum.splits prod.splits)

lemma page_non200:
  assumes "json_Marshal dc rsr = Inr j"
    and "fst (http_Do dc \<lparr>Method = ''POST'', URL = search_url,
        Header = [(''X-Api-Key'', apiKey dc), (''Accept'', ''application/json'')], Body = j\<rparr>
        (upstream w)) = Inr resp"
    and "StatusCode resp \<noteq> 200"
  shows "fst (SearchResidentialPage dc rsr w) =
    ([], Some (case RespBody resp of Inl e \<Rightarrow> ReadError e
               | Inr b \<Rightarrow> Non200 (StatusCode resp) (Status resp)))"
  using assms by (auto simp: SearchResidentialPage_def Let_def split: sum.splits prod.splits)

lemma page_decode_failure:
  assumes "json_Marshal dc rsr = Inr j"
    and "fst (http_Do dc \<lparr>Method = ''POST'', URL = search_url,
        Header = [(''X-Api-Key'', apiKey dc), (''Accept'', ''application/json'')], Body = j\<rparr>
        (upstream w)) = Inr resp"
    and "StatusCode resp = 200" and "RespBody resp = Inr b" and "json_Decode dc b = Inl e"
  shows "fst (SearchResidentialPage dc rsr w) = ([], Some (ParseError e))"
  using assms by (auto simp: SearchResidentialPage_def Let_def split: sum.splits prod.splits)

lemma loop_abort:
  "length listings < 1000 \<Longrightarrow> SearchResidentialPage dc rsr w = ((lp, Some err), w') \<Longrightarrow>
   SearchResidential_loop dc rsr listings w = (([], Some err), w')"
  by (subst SearchResidential_loop.simps) simp

lemma loop_continue:
  "length listings < 1000 \<Longrightarrow> SearchResidentialPage dc rsr w = ((lp, None), w') \<Longrightarrow> lp \<noteq> [] \<Longrightarrow>
   SearchResidential_loop dc rsr listings w =
     SearchResidential_loop dc (rsr\<lparr>PageNumber := PageNumber rsr + 1\<rparr>) (listings @ lp) w'"
  by (subst SearchResidential_loop.simps) simp

lemma loop_break:
  "length listings < 1000 \<Longrightarrow> SearchResidentialPage dc rsr w = (([], None), w') \<Longrightarrow>
   SearchResidential_loop dc rsr listings w = ((listings, None), w')"
  by (subst SearchResidential_loop.simps) simp

lemma loop_cap:
  "\<not> length listings < 1000 \<Longrightarrow> SearchResidential_loop dc rsr listings w = ((listings, None), w)"
  by (subst SearchResidential_loop.simps) simp

lemma uncapped_abort:
  "SearchResidentialPage dc rsr w = ((lp, Some err), w') \<Longrightarrow>
   SearchResidential_uncapped_loop dc rsr listings w = Some (([], Some err), w')"
  by (subst SearchResidential_uncapped_loop.simps) simp

lemma uncapped_continue:
  "SearchResidentialPage dc rsr w = ((lp, None), w') \<Longrightarrow> lp \<noteq> [] \<Longrightarrow>
   SearchResidential_uncapped_loop dc rsr listings w =
     SearchResidential_uncapped_loop dc (rsr\<lparr>PageNumber := PageNumber rsr + 1\<rparr>) (listings @ lp) w'"
  by (subst SearchResidential_uncapped_loop.simps) simp

lemma uncapped_break:
  "SearchResidentialPage dc rsr w = (([], None), w') \<Longrightarrow>
   SearchResidential_uncapped_loop dc rsr listings w = Some ((listings, None), w')"
  by (subst SearchResidential_uncapped_loop.simps) simp

lemma loop_error_nil:
  "SearchResidential_loop dc rsr listings w = ((ls, Some err), w') \<Longrightarrow> ls = []"
proof (induction dc rsr listings w rule: SearchResidential_loop.induct)
  case (1 dc rsr listings w)
  show ?case
  proof (cases "length listings < 1000")
    case False
    with "1.prems" show ?thesis by (simp add: loop_cap)
  next
    case True
    obtain lp e w1 where page: "SearchResidentialPage dc rsr w = ((lp, e), w1)"
      by (metis surj_pair)
    show ?thesis
    proof (cases e)
      case (Some err')
      with True page "1.prems" show ?thesis by (simp add: loop_abort)
    next
      case None
      show ?thesis
      proof (cases "lp = []")
        case True
        with \<open>length listings < 1000\<close> page None "1.prems" show ?thesis
          by (simp add: loop_break)
      next
        case False
        with True page None "1.prems" "1.IH" [of "(lp, e)" w1 lp e] show ?thesis
          by (simp add: loop_continue)
      qed
    qed
  qed
qed

lemma uncapped_shape:
  assumes "SearchResidential_uncapped_loop dc rsr listings w = Some y"
  shows "fst (fst y) = [] \<or> snd (fst y) = None"
proof (rule SearchResidential_uncapped_loop.raw_induct
    [where P = "\<lambda>dc rsr listings w y. fst (fst y) = [] \<or> snd (fst y) = None", OF _ assms])
  fix loop dc rsr listings and w :: "'a world" and y
  assume IH: "\<And>dc rsr listings w y. loop dc rsr listings w = Some y \<Longrightarrow>
      fst (fst y) = [] \<or> snd (fst y) = None"
    and body: "(case SearchResidentialPage dc rsr w of
      ((listingsPage, None), w') \<Rightarrow>
        if length listingsPage = 0 then Some ((listings, None), w')
        else loop dc (rsr\<lparr>PageNumber := PageNumber rsr + 1\<rparr>) (listings @ listingsPage) w'
      | ((listingsPage, Some err), w') \<Rightarrow> Some (([], Some err), w')) = Some y"
  obtain lp e w1 where page: "SearchResidentialPage dc rsr w = ((lp, e), w1)"
    by (metis surj_pair)
  show "fst (fst y) = [] \<or> snd (fst y) = None"
  proof (cases e)
    case (Some err)
    with body page show ?thesis by auto
  next
    case None
    with body page IH show ?thesis
      by (cases "lp = []") auto
  qed
qed

lemma uncapped_error_nil:
  "SearchResidential_uncapped_loop dc rsr listings w = Some ((ls, Some err), w') \<Longrightarrow> ls = []"
  using uncapped_shape [of dc rsr listings w "((ls, Some err), w')"] by simp

subsection \<open>The requests of one call\<close>

lemma loop_trace:
  "\<exists>reqs. requests (snd (SearchResidential_loop dc rsr listings w)) = requests w @ reqs
     \<and> length reqs \<le> 1000 - length listings
     \<and> map (\<lambda>r. Inr (Body r)) reqs =
         map (\<lambda>k. json_Marshal dc (rsr\<lparr>PageNumber := PageNumber rsr + of_nat k\<rparr>))
           [0..<length reqs]"
proof (induction dc rsr listings w rule: SearchResidential_loop.induct)
  case (1 dc rsr listings w)
  show ?case
  proof (cases "length listings < 1000")
    case False
    then show ?thesis by (simp add: loop_cap)
  next
    case True
    obtain lp e w1 where page: "SearchResidentialPage dc rsr w = ((lp, e), w1)"
      by (metis surj_pair)
    from page_requests_cases [OF page]
    consider (unsent) "requests w1 = requests w" "e \<noteq> None"
      | (sent) req where "requests w1 = requests w @ [req]" "json_Marshal dc rsr = Inr (Body req)"
      by auto
    then show ?thesis
    proof cases
      case unsent
      then obtain err where "e = Some err" by auto
      with True page unsent show ?thesis by (simp add: loop_abort)
    next
      case sent
      have one: "length [req] \<le> 1000 - length listings
        \<and> map (\<lambda>r. Inr (Body r)) [req] =
          map (\<lambda>k. json_Marshal dc (rsr\<lparr>PageNumber := PageNumber rsr + of_nat k\<rparr>))
            [0..<length [req]]"
        using True sent by simp
      show ?thesis
      proof (cases e)
        case (Some err)
        with True page have "SearchResidential_loop dc rsr listings w = (([], Some err), w1)"
          by (simp add: loop_abort)
        with sent one show ?thesis by auto
      next
        case None
        show ?thesis
        proof (cases "lp = []")
          case True
          with \<open>length listings < 1000\<close> page None
          have "SearchResidential_loop dc rsr listings w = ((listings, None), w1)"
            by (simp add: loop_break)
          with sent one show ?thesis by auto
        next
          case False
          let ?rsr' = "rsr\<lparr>PageNumber := PageNumber rsr + 1\<rparr>"
          from True page None False
          have step: "SearchResidential_loop dc rsr listings w =
              SearchResidential_loop dc ?rsr' (listings @ lp) w1"
            by (simp add: loop_continue)
          from "1.IH" [OF True page [symmetric] refl _ _] None False
          obtain reqs where reqs:
            "requests (snd (SearchResidential_loop dc ?rsr' (listings @ lp) w1)) = requests w1 @ reqs"
            "length reqs \<le> 1000 - length (listings @ lp)"
            "map (\<lambda>r. Inr (Body r)) reqs =
               map (\<lambda>k. json_Marshal dc (?rsr'\<lparr>PageNumber := PageNumber ?rsr' + of_nat k\<rparr>))
                 [0..<length reqs]"
            by auto
          have len: "length (req # reqs) \<le> 1000 - length listings"
            using reqs(2) True False by (cases lp) auto
          have shift: "map (\<lambda>k. json_Marshal dc (rsr\<lparr>PageNumber := PageNumber rsr + of_nat k\<rparr>))
                 [0..<length (req # reqs)] =
               json_Marshal dc rsr #
               map (\<lambda>k. json_Marshal dc (?rsr'\<lparr>PageNumber := PageNumber ?rsr' + of_nat k\<rparr>))
                 [0..<length reqs]"
            by (simp add: upt_conv_Cons map_Suc_upt [symmetric] add.assoc del: upt_Suc)
          have "requests (snd (SearchResidential_loop dc rsr listings w)) = requests w @ (req # reqs)"
            using step reqs(1) sent(1) by simp
          moreover have "map (\<lambda>r. Inr (Body r)) (req # reqs) =
              map (\<lambda>k. json_Marshal dc (rsr\<lparr>PageNumber := PageNumber rsr + of_nat k\<rparr>))
                 [0..<length (req # reqs)]"
            unfolding shift using sent(2) reqs(3) by simp
          ultimately show ?thesis using len by blast
        qed
      qed
    qed
  qed
qed

lemma small_lt: "(a::nat) \<le> 1000 \<Longrightarrow> a < 2 ^ 64"
proof -
  assume "a \<le> 1000"
  also have "(1000::nat) < 2 ^ 10" by simp
  also have "(2::nat) ^ 10 \<le> 2 ^ 64" by (rule power_increasing) simp_all
  finally show ?thesis .
qed

lemma unat_small: "a \<le> 1000 \<Longrightarrow> unat (of_nat a :: go_int) = a"
  using small_lt [of a] by (simp add: unat_of_nat del: power_numeral)

lemma distinct_page_numbers:
  assumes n: "n \<le> 1000"
  shows "distinct (map (\<lambda>k. of_nat k :: go_int) [0..<n])"
proof -
  have "inj_on (\<lambda>k. of_nat k :: go_int) {0..<n}"
  proof (rule inj_onI)
    fix a b assume a: "a \<in> {0..<n}" and b: "b \<in> {0..<n}"
      and eq: "(of_nat a :: go_int) = of_nat b"
    from a b n have ab: "a \<le> 1000" "b \<le> 1000" by simp_all
    from eq have "unat (of_nat a :: go_int) = unat (of_nat b :: go_int)" by (rule arg_cong)
    then show "a = b" by (simp only: unat_small [OF ab(1)] unat_small [OF ab(2)])
  qed
  then show ?thesis by (simp add: distinct_map)
qed

subsection \<open>An upstream that serves fixed pages\<close>

lemma ceil_div_less: "0 < P \<Longrightarrow> k < (N + P - 1) div P \<longleftrightarrow> k * P < (N::nat)"
proof -
  assume P: "0 < P"
  have "k < (N + P - 1) div P \<longleftrightarrow> Suc k \<le> (N + P - 1) div P" by auto
  also have "\<dots> \<longleftrightarrow> Suc k * P \<le> N + P - 1"
    using P by (simp add: less_eq_div_iff_mult_less_eq)
  also have "\<dots> \<longleftrightarrow> k * P < N" using P by auto
  finally show ?thesis .
qed

lemma ceil_div_le: "0 < P \<Longrightarrow> (N + P - 1) div P \<le> (N::nat)"
proof (rule ccontr)
  assume P: "0 < P" and "\<not> (N + P - 1) div P \<le> N"
  then have "N < (N + P - 1) div P" by simp
  with ceil_div_less [OF P, of N N] have "N * P < N" by blast
  moreover have "N * 1 \<le> N * P" using P by (intro mult_le_mono) simp_all
  ultimately show False by simp
qed

lemma page_fst_ok:
  assumes "fst (SearchResidentialPage dc rsr w) = (lp, None)"
  obtains w' where "SearchResidentialPage dc rsr w = ((lp, None), w')"
    and "length (requests w') = Suc (length (requests w))"
proof -
  obtain w' where w': "SearchResidentialPage dc rsr w = ((lp, None), w')"
    using assms by (cases "SearchResidentialPage dc rsr w") auto
  from page_ok_requests [OF w'] have "length (requests w') = Suc (length (requests w))"
    by auto
  with w' that show ?thesis by blast
qed

lemma loop_pages:
  fixes recs :: "SearchResult list"
  assumes P: "0 < P" and N: "length recs \<le> 1000"
    and pages: "\<And>p w. length (take (unat p * P) recs) < 1000 \<Longrightarrow>
                 fst (SearchResidentialPage dc (rsr\<lparr>PageNumber := p\<rparr>) w) =
                 (take P (drop (unat p * P) recs), None)"
  shows "k \<le> (length recs + P - 1) div P \<Longrightarrow>
    fst (SearchResidential_loop dc (rsr\<lparr>PageNumber := of_nat k\<rparr>) (take (k * P) recs) w) =
      (recs, None)
    \<and> length (requests (snd (SearchResidential_loop dc (rsr\<lparr>PageNumber := of_nat k\<rparr>)
         (take (k * P) recs) w))) =
       length (requests w) + ((length recs + P - 1) div P - k)
         + (if length recs < 1000 then 1 else 0)"
proof (induction "(length recs + P - 1) div P - k" arbitrary: k w)
  case 0
  then have k: "(length recs + P - 1) div P - k = 0" and "\<not> k < (length recs + P - 1) div P"
    by simp_all
  then have "\<not> k * P < length recs" using ceil_div_less [OF P, of k "length recs"] by blast
  then have full: "length recs \<le> k * P" by simp
  then have acc: "take (k * P) recs = recs" by simp
  have "k \<le> 1000" using "0.prems" ceil_div_le [OF P, of "length recs"] N by linarith
  then have un: "unat (of_nat k :: go_int) = k" by (rule unat_small)
  show ?case
  proof (cases "length recs < 1000")
    case False
    then have "SearchResidential_loop dc (rsr\<lparr>PageNumber := of_nat k\<rparr>) recs w = ((recs, None), w)"
      using N by (intro loop_cap) simp
    with False show ?thesis by (simp only: acc k) simp
  next
    case True
    have "fst (SearchResidentialPage dc (rsr\<lparr>PageNumber := of_nat k\<rparr>) w) = ([], None)"
      using pages [of "of_nat k" w] full True by (simp add: un)
    then obtain w' where "SearchResidentialPage dc (rsr\<lparr>PageNumber := of_nat k\<rparr>) w = (([], None), w')"
      and "length (requests w') = Suc (length (requests w))"
      by (rule page_fst_ok)
    with True show ?thesis by (simp only: acc loop_break k) simp
  qed
next
  case (Suc d)
  then have kK: "k < (length recs + P - 1) div P" by simp
  then have less: "k * P < length recs" using ceil_div_less [OF P, of k "length recs"] by blast
  have "k \<le> 1000" using kK ceil_div_le [OF P, of "length recs"] N by linarith
  then have un: "unat (of_nat k :: go_int) = k" by (rule unat_small)
  let ?lp = "take P (drop (k * P) recs)"
  have ne: "?lp \<noteq> []" using less P by simp
  have guard: "length (take (k * P) recs) < 1000" using less N by simp
  have "fst (SearchResidentialPage dc (rsr\<lparr>PageNumber := of_nat k\<rparr>) w) = (?lp, None)"
    using pages [of "of_nat k" w] guard by (simp add: un)
  then obtain w' where page: "SearchResidentialPage dc (rsr\<lparr>PageNumber := of_nat k\<rparr>) w = ((?lp, None), w')"
    and req: "length (requests w') = Suc (length (requests w))"
    by (rule page_fst_ok)
  have acc: "take (k * P) recs @ ?lp = take (Suc k * P) recs"
  proof -
    have "Suc k * P = k * P + P" by simp
    then show ?thesis by (simp only: take_add)
  qed
  have upd: "(rsr\<lparr>PageNumber := of_nat k\<rparr>)\<lparr>PageNumber := PageNumber (rsr\<lparr>PageNumber := of_nat k\<rparr>) + 1\<rparr> =
      rsr\<lparr>PageNumber := of_nat (Suc k)\<rparr>"
    by simp
  have step: "SearchResidential_loop dc (rsr\<lparr>PageNumber := of_nat k\<rparr>) (take (k * P) recs) w =
      SearchResidential_loop dc (rsr\<lparr>PageNumber := of_nat (Suc k)\<rparr>) (take (Suc k * P) recs) w'"
    using loop_continue [OF guard page ne] by (simp only: acc upd)
  have d: "d = (length recs + P - 1) div P - Suc k" using Suc(2) by simp
  have le: "Suc k \<le> (length recs + P - 1) div P" using kK by simp
  from Suc(1) [OF d le, of w'] show ?case
    unfolding step using req kK by simp
qed

lemma uncapped_pages:
  fixes recs :: "SearchResult list"
  assumes P: "0 < P" and N: "length recs \<le> 1000"
    and pages: "\<And>p w. fst (SearchResidentialPage dc (rsr\<lparr>PageNumber := p\<rparr>) w) =
                 (take P (drop (unat p * P) recs), None)"
  shows "k \<le> (length recs + P - 1) div P \<Longrightarrow>
    \<exists>w'. SearchResidential_uncapped_loop dc (rsr\<lparr>PageNumber := of_nat k\<rparr>) (take (k * P) recs) w =
           Some ((recs, None), w')
      \<and> length (requests w') = length (requests w) + ((length recs + P - 1) div P - k) + 1"
proof (induction "(length recs + P - 1) div P - k" arbitrary: k w)
  case 0
  then have k: "(length recs + P - 1) div P - k = 0" and "\<not> k < (length recs + P - 1) div P"
    by simp_all
  then have "\<not> k * P < length recs" using ceil_div_less [OF P, of k "length recs"] by blast
  then have full: "length recs \<le> k * P" by simp
  then have acc: "take (k * P) recs = recs" by simp
  have "k \<le> 1000" using "0.prems" ceil_div_le [OF P, of "length recs"] N by linarith
  then have un: "unat (of_nat k :: go_int) = k" by (rule unat_small)
  have "fst (SearchResidentialPage dc (rsr\<lparr>PageNumber := of_nat k\<rparr>) w) = ([], None)"
    using pages [of "of_nat k" w] full by (simp add: un)
  then obtain w' where "SearchResidentialPage dc (rsr\<lparr>PageNumber := of_nat k\<rparr>) w = (([], None), w')"
    and "length (requests w') = Suc (length (requests w))"
    by (rule page_fst_ok)
  then show ?case by (simp only: acc uncapped_break k) simp
next
  case (Suc d)
  then have kK: "k < (length recs + P - 1) div P" by simp
  then have less: "k * P < length recs" using ceil_div_less [OF P, of k "length recs"] by blast
  have "k \<le> 1000" using kK ceil_div_le [OF P, of "length recs"] N by linarith
  then have un: "unat (of_nat k :: go_int) = k" by (rule unat_small)
  let ?lp = "take P (drop (k * P) recs)"
  have ne: "?lp \<noteq> []" using less P by simp
  have "fst (SearchResidentialPage dc (rsr\<lparr>PageNumber := of_nat k\<rparr>) w) = (?lp, None)"
    using pages [of "of_nat k" w] by (simp add: un)
  then obtain w' where page: "SearchResidentialPage dc (rsr\<lparr>PageNumber := of_nat k\<rparr>) w = ((?lp, None), w')"
    and req: "length (requests w') = Suc (length (requests w))"
    by (rule page_fst_ok)
  have acc: "take (k * P) recs @ ?lp = take (Suc k * P) recs"
  proof -
    have "Suc k * P = k * P + P" by simp
    then show ?thesis by (simp only: take_add)
  qed
  have upd: "(rsr\<lparr>PageNumber := of_nat k\<rparr>)\<lparr>PageNumber := PageNumber (rsr\<lparr>PageNumber := of_nat k\<rparr>) + 1\<rparr> =
      rsr\<lparr>PageNumber := of_nat (Suc k)\<rparr>"
    by simp
  have step: "SearchResidential_uncapped_loop dc (rsr\<lparr>PageNumber := of_nat k\<rparr>) (take (k * P) recs) w =
      SearchResidential_uncapped_loop dc (rsr\<lparr>PageNumber := of_nat (Suc k)\<rparr>) (take (Suc k * P) recs) w'"
    using uncapped_continue [OF page ne, of "take (k * P) recs"] by (simp only: acc upd)
  have d: "d = (length recs + P - 1) div P - Suc k" using Suc(2) by simp
  have le: "Suc k \<le> (length recs + P - 1) div P" using kK by simp
  from Suc(1) [OF d le, of w'] show ?case
    unfolding step using req kK by auto
qed

subsection \<open>The example APIs\<close>

lemma paged_client_page:
  "fst (SearchResidentialPage (paged_client P recs) r w) =
     (take P (drop (unat (PageNumber r) * P) recs), None)"
  by (simp add: SearchResidentialPage_def paged_client_def unary_page_def Let_def)

lemma limited_client_page:
  "fst (SearchResidentialPage (limited_client recs) r w) =
     (if unat (PageNumber r) * 200 + 200 \<le> 1000
      then (take 200 (drop (unat (PageNumber r) * 200) recs), None)
      else ([], Some (Non200 400 ''400 Bad Request'')))"
  by (simp add: SearchResidentialPage_def limited_client_def unary_page_def Let_def)

lemma unary_page_sent:
  assumes "json_Marshal dc = unary_page"
  shows "length (requests (snd (SearchResidentialPage dc r w))) = Suc (length (requests w))"
  using page_requests [of dc r "replicate (unat (PageNumber r)) CHR ''p''" w] assms
  by (simp add: unary_page_def)

lemma search_pages:
  fixes recs :: "SearchResult list"
  assumes P: "0 < P" and N: "length recs \<le> 1000"
    and pages: "\<And>p w. fst (SearchResidentialPage dc (rsr\<lparr>PageSize := 200, PageNumber := p\<rparr>) w) =
                 (take P (drop (unat p * P) recs), None)"
  shows "fst (SearchResidential dc rsr w) = (recs, None)"
    and "length (requests (snd (SearchResidential dc rsr w))) =
       length (requests w) + (length recs + P - 1) div P + (if length recs < 1000 then 1 else 0)"
    and "\<exists>w'. SearchResidential_uncapped dc rsr w = Some ((recs, None), w')
       \<and> length (requests w') = length (requests w) + (length recs + P - 1) div P + 1"
proof -
  let ?r = "rsr\<lparr>PageSize := 200\<rparr>"
  have pg: "\<And>p w. fst (SearchResidentialPage dc (?r\<lparr>PageNumber := p\<rparr>) w) =
                 (take P (drop (unat p * P) recs), None)"
    using pages by simp
  have init: "rsr\<lparr>PageSize := 200, PageNumber := 0\<rparr> = ?r\<lparr>PageNumber := of_nat 0\<rparr>" by simp
  from loop_pages [OF P N pg, of 0 w]
  show "fst (SearchResidential dc rsr w) = (recs, None)"
    and "length (requests (snd (SearchResidential dc rsr w))) =
       length (requests w) + (length recs + P - 1) div P + (if length recs < 1000 then 1 else 0)"
    unfolding SearchResidential_def init by (simp_all del: of_nat_0)
  from uncapped_pages [OF P N pg, of 0 w]
  show "\<exists>w'. SearchResidential_uncapped dc rsr w = Some ((recs, None), w')
       \<and> length (requests w') = length (requests w) + (length recs + P - 1) div P + 1"
    unfolding SearchResidential_uncapped_def init by (simp del: of_nat_0)
qed

text \<open>
  C1 (amended). When the upstream holds \<open>N \<le> 1000\<close> records and serves them in pages of
  \<open>P\<close>, \<^verbatim>\<open>SearchResidential\<close> returns exactly these \<open>N\<close> records with no error. The loop
  stops at the first empty page only, so a last page that is short does not stop it: for
  \<open>N < 1000\<close> it issues \<open>ceil(N/P) + 1\<close> page requests, whether or not \<open>P\<close> divides \<open>N\<close> and
  also for \<open>N = 0\<close>. At \<open>N = 1000\<close> the bounded loop stops on its guard after \<open>ceil(N/P)\<close>
  requests; the unbounded loop of \<^verbatim>\<open>domain_exporter.go\<close> always issues \<open>ceil(N/P) + 1\<close>.
\<close>

theorem fetch_all_pages:
  fixes recs :: "SearchResult list"
  assumes "0 < P" and "length recs \<le> 1000"
    and "\<And>p w. fst (SearchResidentialPage dc (rsr\<lparr>PageSize := 200, PageNumber := p\<rparr>) w) =
                 (take P (drop (unat p * P) recs), None)"
  shows "fst (SearchResidential dc rsr w) = (recs, None)
    \<and> length (requests (snd (SearchResidential dc rsr w))) =
       length (requests w) + (length recs + P - 1) div P + (if length recs < 1000 then 1 else 0)
    \<and> (\<exists>w'. SearchResidential_uncapped dc rsr w = Some ((recs, None), w')
       \<and> length (requests w') = length (requests w) + (length recs + P - 1) div P + 1)"
  using search_pages [OF assms] by blast

text \<open>
  The scenario of the specification: two pages of 200 and then an empty page are three
  requests and 400 records.
\<close>

theorem fetch_all_pages_witness:
  "fst (SearchResidential (paged_client 200 (replicate 400 example_listing)) example_rsr
          (new_world ())) = (replicate 400 example_listing, None)
   \<and> length (requests (snd (SearchResidential
        (paged_client 200 (replicate 400 example_listing)) example_rsr (new_world ())))) = 3
   \<and> (\<exists>w'. SearchResidential_uncapped (paged_client 200 (replicate 400 example_listing))
          example_rsr (new_world ()) = Some ((replicate 400 example_listing, None), w')
        \<and> length (requests w') = 3)"
proof -
  have P: "0 < (200::nat)" by simp
  have N: "length (replicate 400 example_listing) \<le> 1000" by simp
  have pages: "\<And>p w. fst (SearchResidentialPage (paged_client 200 (replicate 400 example_listing))
        (example_rsr\<lparr>PageSize := 200, PageNumber := p\<rparr>) w) =
      (take 200 (drop (unat p * 200) (replicate 400 example_listing)), None)"
    by (simp add: paged_client_page)
  from fetch_all_pages [OF P N pages, of "new_world ()"] show ?thesis
    by (simp add: new_world_def numeral_3_eq_3)
qed

text \<open>
  The count of the specification fails where the last page is short, where there are no
  records and at the bound: three records in pages of two take three requests (not two), no
  record takes one request (not none), and 1000 records in pages of 200 take five requests
  of the bounded loop (not six).
\<close>

theorem short_page_counterexample:
  "length (requests (snd (SearchResidential
        (paged_client 2 (replicate 3 example_listing)) example_rsr (new_world ())))) = 3
   \<and> spec_page_requests 3 2 = 2
   \<and> length (requests (snd (SearchResidential (paged_client 200 []) example_rsr
        (new_world ())))) = 1
   \<and> spec_page_requests 0 200 = 0
   \<and> length (requests (snd (SearchResidential
        (paged_client 200 (replicate 1000 example_listing)) example_rsr (new_world ())))) = 5
   \<and> spec_page_requests 1000 200 = 6"
proof -
  have pages: "\<And>P recs p w. fst (SearchResidentialPage (paged_client P recs)
        (example_rsr\<lparr>PageSize := 200, PageNumber := p\<rparr>) w) =
      (take P (drop (unat p * P) recs), None)"
    by (simp add: paged_client_page)
  have "length (requests (snd (SearchResidential
        (paged_client 2 (replicate 3 example_listing)) example_rsr (new_world ())))) = 3"
    using search_pages(2) [OF _ _ pages, of 2 "replicate 3 example_listing" "new_world ()"]
    by (simp add: new_world_def)
  moreover have "length (requests (snd (SearchResidential (paged_client 200 []) example_rsr
        (new_world ())))) = 1"
    using search_pages(2) [OF _ _ pages, of 200 "[]" "new_world ()"]
    by (simp add: new_world_def)
  moreover have "length (requests (snd (SearchResidential
        (paged_client 200 (replicate 1000 example_listing)) example_rsr (new_world ())))) = 5"
    using search_pages(2) [OF _ _ pages, of 200 "replicate 1000 example_listing" "new_world ()"]
    by (simp add: new_world_def)
  ultimately show ?thesis
    by (simp add: spec_page_requests_def)
qed

subsection \<open>Records beyond the bound\<close>

lemma capped_stops_at_cap:
  fixes recs :: "SearchResult list"
  assumes N: "1000 \<le> length recs"
    and pages: "\<And>p w. unat p * 200 < 1000 \<Longrightarrow>
        fst (SearchResidentialPage dc (rsr\<lparr>PageSize := 200, PageNumber := p\<rparr>) w) =
          (take 200 (drop (unat p * 200) recs), None)"
  shows "fst (SearchResidential dc rsr w) = (take 1000 recs, None)"
    and "length (requests (snd (SearchResidential dc rsr w))) = length (requests w) + 5"
proof -
  let ?r = "rsr\<lparr>PageSize := 200\<rparr>"
  let ?recs = "take 1000 recs"
  have len: "length ?recs = 1000" using N by simp
  have pg: "\<And>p w. length (take (unat p * 200) ?recs) < 1000 \<Longrightarrow>
      fst (SearchResidentialPage dc (?r\<lparr>PageNumber := p\<rparr>) w) =
        (take 200 (drop (unat p * 200) ?recs), None)"
  proof -
    fix p :: go_int and w :: "'a world"
    assume "length (take (unat p * 200) ?recs) < 1000"
    then have lt: "unat p * 200 < 1000" using N by simp
    then have "unat p < 5" by simp
    then have le: "unat p * 200 + 200 \<le> 1000" by simp
    have "take 200 (drop (unat p * 200) ?recs) = take 200 (drop (unat p * 200) recs)"
      using le by (simp add: drop_take min_def)
    with pages [OF lt, of w]
    show "fst (SearchResidentialPage dc (?r\<lparr>PageNumber := p\<rparr>) w) =
        (take 200 (drop (unat p * 200) ?recs), None)"
      by simp
  qed
  have init: "rsr\<lparr>PageSize := 200, PageNumber := 0\<rparr> = ?r\<lparr>PageNumber := of_nat 0\<rparr>" by simp
  have P: "0 < (200::nat)" by simp
  have N': "length ?recs \<le> 1000" by simp
  from loop_pages [OF P N' pg, of 0 w]
  show "fst (SearchResidential dc rsr w) = (take 1000 recs, None)"
    and "length (requests (snd (SearchResidential dc rsr w))) = length (requests w) + 5"
    unfolding SearchResidential_def init len by (simp_all del: of_nat_0)
qed

lemma uncapped_prefix:
  assumes n: "n \<le> 1000"
    and ok: "\<And>p w. unat p < n \<Longrightarrow>
        snd (fst (SearchResidentialPage dc (rsr\<lparr>PageNumber := p\<rparr>) w)) = None
        \<and> fst (fst (SearchResidentialPage dc (rsr\<lparr>PageNumber := p\<rparr>) w)) \<noteq> []"
    and fail: "\<And>w. fst (SearchResidentialPage dc (rsr\<lparr>PageNumber := of_nat n\<rparr>) w) = ([], Some err)"
    and sent: "\<And>r w. length (requests (snd (SearchResidentialPage dc r w))) = Suc (length (requests w))"
  shows "k \<le> n \<Longrightarrow>
    \<exists>w'. SearchResidential_uncapped_loop dc (rsr\<lparr>PageNumber := of_nat k\<rparr>) acc w =
           Some (([], Some err), w')
      \<and> length (requests w') = length (requests w) + (n - k) + 1"
proof (induction "n - k" arbitrary: k acc w)
  case 0
  then have k: "k = n" by simp
  obtain w' where page: "SearchResidentialPage dc (rsr\<lparr>PageNumber := of_nat n\<rparr>) w = (([], Some err), w')"
    using fail [of w] by (cases "SearchResidentialPage dc (rsr\<lparr>PageNumber := of_nat n\<rparr>) w") auto
  from sent [of "rsr\<lparr>PageNumber := of_nat n\<rparr>" w] page
  have "length (requests w') = Suc (length (requests w))" by simp
  with uncapped_abort [OF page, of acc] show ?case by (simp add: k)
next
  case (Suc d)
  then have kn: "k < n" by simp
  with n have "k \<le> 1000" by simp
  then have un: "unat (of_nat k :: go_int) = k" by (rule unat_small)
  obtain lp e w' where page: "SearchResidentialPage dc (rsr\<lparr>PageNumber := of_nat k\<rparr>) w = ((lp, e), w')"
    by (metis surj_pair)
  from ok [of "of_nat k" w] kn page have e: "e = None" and ne: "lp \<noteq> []"
    by (simp_all add: un)
  from sent [of "rsr\<lparr>PageNumber := of_nat k\<rparr>" w] page
  have req: "length (requests w') = Suc (length (requests w))" by simp
  have upd: "(rsr\<lparr>PageNumber := of_nat k\<rparr>)\<lparr>PageNumber := PageNumber (rsr\<lparr>PageNumber := of_nat k\<rparr>) + 1\<rparr> =
      rsr\<lparr>PageNumber := of_nat (Suc k)\<rparr>"
    by simp
  have step: "SearchResidential_uncapped_loop dc (rsr\<lparr>PageNumber := of_nat k\<rparr>) acc w =
      SearchResidential_uncapped_loop dc (rsr\<lparr>PageNumber := of_nat (Suc k)\<rparr>) (acc @ lp) w'"
    using uncapped_continue [OF page [unfolded e] ne, of acc] by (simp only: upd)
  have d: "d = n - Suc k" using Suc(2) by simp
  have le: "Suc k \<le> n" using kn by simp
  from Suc(1) [OF d le, of "acc @ lp" w'] show ?case
    unfolding step using req kn by auto
qed

text \<open>
  C2. Against an API that holds 1200 records and refuses every page that ends beyond the
  first 1000, the unbounded loop of \<^verbatim>\<open>domain_exporter.go\<close> issues a sixth request, for the
  records 1000 to 1199, and returns the refusal as its error with no records. The bounded
  loop of the later revision stops after five requests and returns the first 1000 records.
\<close>

theorem uncapped_pages_beyond_cap:
  "(\<exists>w'. SearchResidential_uncapped (limited_client (replicate 1200 example_listing)) example_rsr
           (new_world ()) = Some (([], Some (Non200 400 ''400 Bad Request'')), w')
         \<and> length (requests w') = 6)
   \<and> fst (SearchResidential (limited_client (replicate 1200 example_listing)) example_rsr
           (new_world ())) = (replicate 1000 example_listing, None)
   \<and> length (requests (snd (SearchResidential (limited_client (replicate 1200 example_listing))
           example_rsr (new_world ())))) = 5"
proof -
  let ?dc = "limited_client (replicate 1200 example_listing)"
  let ?r = "example_rsr\<lparr>PageSize := 200\<rparr>"
  have five: "(5::nat) \<le> 1000" by simp
  have ok: "\<And>p w. unat p < 5 \<Longrightarrow>
        snd (fst (SearchResidentialPage ?dc (?r\<lparr>PageNumber := p\<rparr>) w)) = None
        \<and> fst (fst (SearchResidentialPage ?dc (?r\<lparr>PageNumber := p\<rparr>) w)) \<noteq> []"
    by (simp add: limited_client_page)
  have fail: "\<And>w. fst (SearchResidentialPage ?dc (?r\<lparr>PageNumber := of_nat 5\<rparr>) w) =
      ([], Some (Non200 400 ''400 Bad Request''))"
    by (simp add: limited_client_page)
  have sent: "\<And>r w. length (requests (snd (SearchResidentialPage ?dc r w))) = Suc (length (requests w))"
    by (rule unary_page_sent) (simp add: limited_client_def)
  have init: "example_rsr\<lparr>PageSize := 200, PageNumber := 0\<rparr> = ?r\<lparr>PageNumber := of_nat 0\<rparr>" by simp
  from uncapped_prefix [OF five ok fail sent, of 0 "[]" "new_world ()"]
  have uncapped: "\<exists>w'. SearchResidential_uncapped ?dc example_rsr (new_world ()) =
        Some (([], Some (Non200 400 ''400 Bad Request'')), w') \<and> length (requests w') = 6"
    unfolding SearchResidential_uncapped_def init by (simp add: new_world_def del: of_nat_0)
  have N: "1000 \<le> length (replicate 1200 example_listing)" by simp
  have pages: "\<And>p w. unat p * 200 < 1000 \<Longrightarrow>
        fst (SearchResidentialPage ?dc (example_rsr\<lparr>PageSize := 200, PageNumber := p\<rparr>) w) =
          (take 200 (drop (unat p * 200) (replicate 1200 example_listing)), None)"
    by (simp add: limited_client_page)
  from capped_stops_at_cap [OF N pages, of "new_world ()"] uncapped show ?thesis
    by (simp add: new_world_def)
qed

subsection \<open>The scripted API\<close>

lemma scripted_ok:
  assumes "upstream w = ok_response b # rs" and "list_all (\<lambda>c. c = CHR ''x'') b"
  shows "\<exists>w'. SearchResidentialPage scripted_client rsr w =
           ((replicate (length b) example_listing, None), w')
         \<and> upstream w' = rs \<and> length (requests w') = Suc (length (requests w))"
  using assms
  by (simp add: SearchResidentialPage_def scripted_client_def unary_page_def ok_response_def Let_def)

lemma scripted_500:
  assumes "upstream w = server_error # rs"
  shows "\<exists>w'. SearchResidentialPage scripted_client rsr w =
           (([], Some (Non200 500 ''500 Internal Server Error'')), w')
         \<and> upstream w' = rs \<and> length (requests w') = Suc (length (requests w))"
  using assms
  by (simp add: SearchResidentialPage_def scripted_client_def unary_page_def server_error_def Let_def)

lemma scripted_bad_json:
  assumes "upstream w = ok_response b # rs" and "\<not> list_all (\<lambda>c. c = CHR ''x'') b"
  shows "\<exists>w'. SearchResidentialPage scripted_client rsr w =
           (([], Some (ParseError ''invalid character'')), w')
         \<and> upstream w' = rs \<and> length (requests w') = Suc (length (requests w))"
  using assms
  by (simp add: SearchResidentialPage_def scripted_client_def unary_page_def ok_response_def Let_def)

lemma scripted_refused:
  assumes "upstream w = []"
  shows "\<exists>w'. SearchResidentialPage scripted_client rsr w =
           (([], Some (RequestFailed search_url ''connection refused'')), w')
         \<and> upstream w' = [] \<and> length (requests w') = Suc (length (requests w))"
  using assms
  by (simp add: SearchResidentialPage_def scripted_client_def unary_page_def Let_def)

subsection \<open>Failure of a page request\<close>

lemma search_fails_on_second_page:
  assumes "SearchResidentialPage dc (rsr\<lparr>PageSize := 200, PageNumber := 0\<rparr>) w0 = ((lp, None), w1)"
    and "lp \<noteq> []" and "length lp < 1000"
    and "SearchResidentialPage dc (rsr\<lparr>PageSize := 200, PageNumber := 1\<rparr>) w1 =
      ((lp', Some err), w2)"
  shows "SearchResidential dc rsr w0 = (([], Some err), w2)"
proof -
  have "SearchResidential_loop dc (rsr\<lparr>PageSize := 200, PageNumber := 0\<rparr>) [] w0 =
      SearchResidential_loop dc (rsr\<lparr>PageSize := 200, PageNumber := 1\<rparr>) ([] @ lp) w1"
    using loop_continue [OF _ assms(1,2), of "[]"] by simp
  also have "\<dots> = (([], Some err), w2)"
    using loop_abort [OF _ assms(4), of "[] @ lp"] assms(3) by simp
  finally show ?thesis by (simp add: SearchResidential_def)
qed

text \<open>
  C4. When a page request fails, both loops return at once, from whatever they have
  accumulated: the result is the empty list with the error of that page, and the world is
  the one the failed request left (no further request, no further log line). A call that
  returns an error returns no records.
\<close>

theorem fetch_failure_aborts:
  "(length listings < 1000 \<and> SearchResidentialPage dc rsr w = ((lp, Some err), w') \<longrightarrow>
      SearchResidential_loop dc rsr listings w = (([], Some err), w'))
   \<and> (SearchResidentialPage dc rsr w = ((lp, Some err), w') \<longrightarrow>
      SearchResidential_uncapped_loop dc rsr listings w = Some (([], Some err), w'))
   \<and> (snd (fst (SearchResidential dc rsr w)) = None \<or> fst (fst (SearchResidential dc rsr w)) = [])
   \<and> (SearchResidential_uncapped dc rsr w = Some ((ls, Some e), w1) \<longrightarrow> ls = [])"
proof -
  have "snd (fst (SearchResidential dc rsr w)) = None \<or> fst (fst (SearchResidential dc rsr w)) = []"
  proof (cases "SearchResidential dc rsr w")
    case (Pair res v)
    obtain ls' e' where res: "res = (ls', e')" by (cases res)
    show ?thesis
    proof (cases e')
      case None
      with Pair res show ?thesis by simp
    next
      case (Some err')
      with Pair res loop_error_nil [of dc "rsr\<lparr>PageSize := 200, PageNumber := 0\<rparr>" "[]" w ls' err' v]
      show ?thesis by (simp add: SearchResidential_def)
    qed
  qed
  then show ?thesis
    by (auto simp: loop_abort uncapped_abort SearchResidential_uncapped_def dest: uncapped_error_nil)
qed

text \<open>
  Two pages succeed (three records) and the third request is answered with status 500; one
  page succeeds and the connection of the second request is refused; one page succeeds and
  the second answer is not JSON.
\<close>

theorem fetch_failure_aborts_witness:
  "fst (SearchResidential scripted_client example_rsr
          (new_world [ok_response ''xx'', ok_response ''x'', server_error])) =
     ([], Some (Non200 500 ''500 Internal Server Error''))
   \<and> length (requests (snd (SearchResidential scripted_client example_rsr
          (new_world [ok_response ''xx'', ok_response ''x'', server_error])))) = 3
   \<and> (\<exists>w'. SearchResidential_uncapped scripted_client example_rsr
          (new_world [ok_response ''xx'', ok_response ''x'', server_error]) =
        Some (([], Some (Non200 500 ''500 Internal Server Error'')), w')
      \<and> length (requests w') = 3)
   \<and> fst (SearchResidential scripted_client example_rsr (new_world [ok_response ''x''])) =
     ([], Some (RequestFailed search_url ''connection refused''))
   \<and> fst (SearchResidential scripted_client example_rsr
          (new_world [ok_response ''x'', ok_response ''<html>''])) =
     ([], Some (ParseError ''invalid character''))"
proof -
  let ?w0 = "new_world [ok_response ''xx'', ok_response ''x'', server_error]"
  let ?r0 = "example_rsr\<lparr>PageSize := 200, PageNumber := 0\<rparr>"
  let ?r1 = "example_rsr\<lparr>PageSize := 200, PageNumber := 1\<rparr>"
  let ?r2 = "example_rsr\<lparr>PageSize := 200, PageNumber := 2\<rparr>"
  obtain w1 where p0: "SearchResidentialPage scripted_client ?r0 ?w0 =
      (([example_listing, example_listing], None), w1)"
    and u1: "upstream w1 = [ok_response ''x'', server_error]" and n1: "length (requests w1) = 1"
    using scripted_ok [of ?w0 "''xx''" "[ok_response ''x'', server_error]" ?r0]
    by (auto simp: new_world_def)
  obtain w2 where p1: "SearchResidentialPage scripted_client ?r1 w1 =
      (([example_listing], None), w2)"
    and u2: "upstream w2 = [server_error]" and n2: "length (requests w2) = 2"
    using scripted_ok [of w1 "''x''" "[server_error]" ?r1] u1 n1 by auto
  obtain w3 where p2: "SearchResidentialPage scripted_client ?r2 w2 =
      (([], Some (Non200 500 ''500 Internal Server Error'')), w3)"
    and n3: "length (requests w3) = 3"
    using scripted_500 [of w2 "[]" ?r2] u2 n2 by auto
  have s0: "SearchResidential_loop scripted_client ?r0 [] ?w0 =
      SearchResidential_loop scripted_client ?r1 ([example_listing, example_listing]) w1"
    using loop_continue [OF _ p0, of "[]"] by simp
  have s1: "SearchResidential_loop scripted_client ?r1 ([example_listing, example_listing]) w1 =
      SearchResidential_loop scripted_client ?r2
        ([example_listing, example_listing] @ [example_listing]) w2"
    using loop_continue [OF _ p1, of "[example_listing, example_listing]"] by simp
  note abort = fetch_failure_aborts [of "[example_listing, example_listing] @ [example_listing]"
      scripted_client ?r2 w2 "[]" "Non200 500 ''500 Internal Server Error''" w3]
  have s2: "SearchResidential_loop scripted_client ?r2
        ([example_listing, example_listing] @ [example_listing]) w2 =
      (([], Some (Non200 500 ''500 Internal Server Error'')), w3)"
    using abort p2 by simp
  have u0: "SearchResidential_uncapped_loop scripted_client ?r0 [] ?w0 =
      SearchResidential_uncapped_loop scripted_client ?r1 ([example_listing, example_listing]) w1"
    using uncapped_continue [OF p0, of "[]"] by simp
  have u1': "SearchResidential_uncapped_loop scripted_client ?r1 ([example_listing, example_listing]) w1 =
      SearchResidential_uncapped_loop scripted_client ?r2
        ([example_listing, example_listing] @ [example_listing]) w2"
    using uncapped_continue [OF p1, of "[example_listing, example_listing]"] by simp
  have u2': "SearchResidential_uncapped_loop scripted_client ?r2
        ([example_listing, example_listing] @ [example_listing]) w2 =
      Some (([], Some (Non200 500 ''500 Internal Server Error'')), w3)"
    using abort p2 by simp
  have unbounded: "\<exists>w'. SearchResidential_uncapped scripted_client example_rsr ?w0 =
        Some (([], Some (Non200 500 ''500 Internal Server Error'')), w')
      \<and> length (requests w') = 3"
    unfolding SearchResidential_uncapped_def u0 u1' u2' using n3 by simp
  have status: "fst (SearchResidential scripted_client example_rsr ?w0) =
      ([], Some (Non200 500 ''500 Internal Server Error''))"
    "length (requests (snd (SearchResidential scripted_client example_rsr ?w0))) = 3"
    unfolding SearchResidential_def s0 s1 s2 using n3 by simp_all
  \<comment> \<open>a transport failure\<close>
  obtain v1 where q0: "SearchResidentialPage scripted_client ?r0 (new_world [ok_response ''x'']) =
      (([example_listing], None), v1)" and uv1: "upstream v1 = []"
    using scripted_ok [of "new_world [ok_response ''x'']" "''x''" "[]" ?r0]
    by (auto simp: new_world_def)
  obtain v2 where q1: "SearchResidentialPage scripted_client ?r1 v1 =
      (([], Some (RequestFailed search_url ''connection refused'')), v2)"
    using scripted_refused [of v1 ?r1] uv1 by auto
  have transport: "fst (SearchResidential scripted_client example_rsr (new_world [ok_response ''x''])) =
      ([], Some (RequestFailed search_url ''connection refused''))"
    using search_fails_on_second_page [OF q0 _ _ q1] by simp
  \<comment> \<open>a decode failure\<close>
  obtain y1 where d0: "SearchResidentialPage scripted_client ?r0
        (new_world [ok_response ''x'', ok_response ''<html>'']) = (([example_listing], None), y1)"
    and uy1: "upstream y1 = [ok_response ''<html>'']"
    using scripted_ok [of "new_world [ok_response ''x'', ok_response ''<html>'']" "''x''"
        "[ok_response ''<html>'']" ?r0]
    by (auto simp: new_world_def)
  obtain y2 where d1: "SearchResidentialPage scripted_client ?r1 y1 =
      (([], Some (ParseError ''invalid character'')), y2)"
    using scripted_bad_json [of y1 "''<html>''" "[]" ?r1] uy1 by auto
  have decode: "fst (SearchResidential scripted_client example_rsr
        (new_world [ok_response ''x'', ok_response ''<html>''])) =
      ([], Some (ParseError ''invalid character''))"
    using search_fails_on_second_page [OF d0 _ _ d1] by simp
  from status unbounded transport decode show ?thesis by blast
qed

subsection \<open>The requests of the unbounded loop\<close>

lemma uncapped_trace:
  assumes "SearchResidential_uncapped_loop dc rsr listings w = Some y"
  shows "\<exists>reqs. requests (snd y) = requests w @ reqs
     \<and> map (\<lambda>r. Inr (Body r)) reqs =
         map (\<lambda>k. json_Marshal dc (rsr\<lparr>PageNumber := PageNumber rsr + of_nat k\<rparr>))
           [0..<length reqs]"
proof (rule SearchResidential_uncapped_loop.raw_induct
    [where P = "\<lambda>dc rsr listings w y. \<exists>reqs. requests (snd y) = requests w @ reqs
     \<and> map (\<lambda>r. Inr (Body r)) reqs =
         map (\<lambda>k. json_Marshal dc (rsr\<lparr>PageNumber := PageNumber rsr + of_nat k\<rparr>))
           [0..<length reqs]", OF _ assms])
  fix loop dc rsr listings and w :: "'a world" and y
  assume IH: "\<And>dc rsr listings w y. loop dc rsr listings w = Some y \<Longrightarrow>
      \<exists>reqs. requests (snd y) = requests w @ reqs
       \<and> map (\<lambda>r. Inr (Body r)) reqs =
           map (\<lambda>k. json_Marshal dc (rsr\<lparr>PageNumber := PageNumber rsr + of_nat k\<rparr>))
             [0..<length reqs]"
    and run: "(case SearchResidentialPage dc rsr w of
      ((listingsPage, None), w') \<Rightarrow>
        if length listingsPage = 0 then Some ((listings, None), w')
        else loop dc (rsr\<lparr>PageNumber := PageNumber rsr + 1\<rparr>) (listings @ listingsPage) w'
      | ((listingsPage, Some err), w') \<Rightarrow> Some (([], Some err), w')) = Some y"
  let ?goal = "\<exists>reqs. requests (snd y) = requests w @ reqs
       \<and> map (\<lambda>r. Inr (Body r)) reqs =
           map (\<lambda>k. json_Marshal dc (rsr\<lparr>PageNumber := PageNumber rsr + of_nat k\<rparr>))
             [0..<length reqs]"
  obtain lp e w1 where page: "SearchResidentialPage dc rsr w = ((lp, e), w1)"
    by (metis surj_pair)
  from page_requests_cases [OF page]
  consider (unsent) "requests w1 = requests w" "e \<noteq> None"
    | (sent) req where "requests w1 = requests w @ [req]" "json_Marshal dc rsr = Inr (Body req)"
    by auto
  then show ?goal
  proof cases
    case unsent
    then obtain err where "e = Some err" by auto
    with run page unsent show ?thesis by auto
  next
    case sent
    have one: "map (\<lambda>r. Inr (Body r)) [req] =
          map (\<lambda>k. json_Marshal dc (rsr\<lparr>PageNumber := PageNumber rsr + of_nat k\<rparr>))
            [0..<length [req]]"
      using sent by simp
    show ?thesis
    proof (cases "e \<noteq> None \<or> lp = []")
      case True
      with run page have "snd y = w1" by (cases e) (auto split: if_splits)
      with sent(1) one show ?thesis by blast
    next
      case False
      let ?rsr' = "rsr\<lparr>PageNumber := PageNumber rsr + 1\<rparr>"
      from False run page have "loop dc ?rsr' (listings @ lp) w1 = Some y" by auto
      from IH [OF this] obtain reqs where reqs:
        "requests (snd y) = requests w1 @ reqs"
        "map (\<lambda>r. Inr (Body r)) reqs =
           map (\<lambda>k. json_Marshal dc (?rsr'\<lparr>PageNumber := PageNumber ?rsr' + of_nat k\<rparr>))
             [0..<length reqs]"
        by blast
      have shift: "map (\<lambda>k. json_Marshal dc (rsr\<lparr>PageNumber := PageNumber rsr + of_nat k\<rparr>))
             [0..<length (req # reqs)] =
           json_Marshal dc rsr #
           map (\<lambda>k. json_Marshal dc (?rsr'\<lparr>PageNumber := PageNumber ?rsr' + of_nat k\<rparr>))
             [0..<length reqs]"
        by (simp add: upt_conv_Cons map_Suc_upt [symmetric] add.assoc del: upt_Suc)
      have "requests (snd y) = requests w @ (req # reqs)"
        using reqs(1) sent(1) by simp
      moreover have "map (\<lambda>r. Inr (Body r)) (req # reqs) =
          map (\<lambda>k. json_Marshal dc (rsr\<lparr>PageNumber := PageNumber rsr + of_nat k\<rparr>))
             [0..<length (req # reqs)]"
        unfolding shift using sent(2) reqs(2) by simp
      ultimately show ?thesis by blast
    qed
  qed
qed

subsection \<open>The order of the pages\<close>

text \<open>
  C6. The requests one call of \<^verbatim>\<open>SearchResidential\<close> sends are, in order, the caller's
  criteria with \<^verbatim>\<open>PageSize\<close> 200 and \<^verbatim>\<open>PageNumber\<close> 0, 1, 2, ...: the body of request \<open>k\<close>
  is the JSON of the criteria with these two fields overwritten. The bounded loop sends at
  most 1000 requests, so no page number repeats.
\<close>

theorem pages_in_order:
  "(\<exists>reqs. requests (snd (SearchResidential dc rsr w)) = requests w @ reqs
     \<and> length reqs \<le> 1000
     \<and> map (\<lambda>r. Inr (Body r)) reqs =
         map (\<lambda>k. json_Marshal dc (rsr\<lparr>PageSize := 200, PageNumber := of_nat k\<rparr>))
           [0..<length reqs]
     \<and> distinct (map (\<lambda>k. of_nat k :: go_int) [0..<length reqs]))
   \<and> (SearchResidential_uncapped dc rsr w = Some y \<longrightarrow>
       (\<exists>reqs. requests (snd y) = requests w @ reqs
         \<and> map (\<lambda>r. Inr (Body r)) reqs =
             map (\<lambda>k. json_Marshal dc (rsr\<lparr>PageSize := 200, PageNumber := of_nat k\<rparr>))
               [0..<length reqs]))"
proof -
  from loop_trace [of dc "rsr\<lparr>PageSize := 200, PageNumber := 0\<rparr>" "[]" w]
  obtain reqs where reqs:
    "requests (snd (SearchResidential dc rsr w)) = requests w @ reqs"
    "length reqs \<le> 1000"
    "map (\<lambda>r. Inr (Body r)) reqs =
         map (\<lambda>k. json_Marshal dc (rsr\<lparr>PageSize := 200, PageNumber := of_nat k\<rparr>))
           [0..<length reqs]"
    by (auto simp: SearchResidential_def)
  with distinct_page_numbers [of "length reqs"]
  have capped: "\<exists>reqs. requests (snd (SearchResidential dc rsr w)) = requests w @ reqs
     \<and> length reqs \<le> 1000
     \<and> map (\<lambda>r. Inr (Body r)) reqs =
         map (\<lambda>k. json_Marshal dc (rsr\<lparr>PageSize := 200, PageNumber := of_nat k\<rparr>))
           [0..<length reqs]
     \<and> distinct (map (\<lambda>k. of_nat k :: go_int) [0..<length reqs])"
    by blast
  have uncapped: "\<exists>reqs. requests (snd y) = requests w @ reqs
         \<and> map (\<lambda>r. Inr (Body r)) reqs =
             map (\<lambda>k. json_Marshal dc (rsr\<lparr>PageSize := 200, PageNumber := of_nat k\<rparr>))
               [0..<length reqs]"
    if "SearchResidential_uncapped dc rsr w = Some y"
    using uncapped_trace [of dc "rsr\<lparr>PageSize := 200, PageNumber := 0\<rparr>" "[]" w y] that
    by (simp add: SearchResidential_uncapped_def)
  from capped uncapped show ?thesis by blast
qed

text \<open>Three records in pages of two: the requests carry the page numbers 0, 1 and 2.\<close>

theorem pages_in_order_witness:
  "map Body (requests (snd (SearchResidential (paged_client 2 (replicate 3 example_listing))
      example_rsr (new_world ())))) = ['''', ''p'', ''pp'']
   \<and> (\<exists>w'. SearchResidential_uncapped (paged_client 2 (replicate 3 example_listing))
          example_rsr (new_world ()) = Some ((replicate 3 example_listing, None), w')
        \<and> map Body (requests w') = ['''', ''p'', ''pp''])"
proof -
  let ?dc = "paged_client 2 (replicate 3 example_listing)"
  have P: "0 < (2::nat)" by simp
  have N: "length (replicate 3 example_listing) \<le> 1000" by simp
  have pages: "\<And>p w. fst (SearchResidentialPage ?dc
        (example_rsr\<lparr>PageSize := 200, PageNumber := p\<rparr>) w) =
      (take 2 (drop (unat p * 2) (replicate 3 example_listing)), None)"
    by (simp add: paged_client_page)
  from search_pages(2) [OF P N pages, of "new_world ()"]
  have n: "length (requests (snd (SearchResidential ?dc example_rsr (new_world ())))) = 3"
    by (simp add: new_world_def)
  from search_pages(3) [OF P N pages, of "new_world ()"]
  obtain w' where run: "SearchResidential_uncapped ?dc example_rsr (new_world ()) =
      Some ((replicate 3 example_listing, None), w')" and n': "length (requests w') = 3"
    by (auto simp: new_world_def)
  have pp: "replicate 2 CHR ''p'' = ''pp''" by (simp add: numeral_2_eq_2)
  have marshal: "json_Marshal ?dc (example_rsr\<lparr>PageSize := 200, PageNumber := 0\<rparr>) = Inr []"
    "json_Marshal ?dc (example_rsr\<lparr>PageSize := 200, PageNumber := 1\<rparr>) = Inr ''p''"
    "json_Marshal ?dc (example_rsr\<lparr>PageSize := 200, PageNumber := 2\<rparr>) = Inr ''pp''"
    by (simp_all add: paged_client_def unary_page_def pp)
  have upt3: "[0..<3] = [0, 1, 2]" by (simp add: upt_rec)
  have bodies: "map Body reqs = ['''', ''p'', ''pp'']"
    if "length reqs = 3" and "map (\<lambda>r. Inr (Body r)) reqs =
         map (\<lambda>k. json_Marshal ?dc (example_rsr\<lparr>PageSize := 200, PageNumber := of_nat k\<rparr>))
           [0..<length reqs]" for reqs :: "http_request list"
  proof -
    from that have "map (\<lambda>r. Inr (Body r) :: string + string) reqs = map Inr ['''', ''p'', ''pp'']"
      by (simp add: upt3 marshal)
    then have "map Inr (map Body reqs) = (map Inr ['''', ''p'', ''pp''] :: (string + string) list)"
      by (simp add: comp_def)
    then show ?thesis
      by (simp only: inj_map_eq_map [OF inj_Inr])
  qed
  from pages_in_order [of ?dc example_rsr "new_world ()" "((replicate 3 example_listing, None), w')"]
    n n' run bodies
  show ?thesis by (auto simp: new_world_def)
qed

subsection \<open>Termination of the bounded loop\<close>

text \<open>
  C10. The bounded loop is a total function (its termination is proved with the measure
  \<open>1000 - length listings\<close>), whatever the page requests return. An iteration returns the
  error of its page, breaks on an empty page, or goes on with a longer list and a smaller
  measure; at 1000 records or more the guard ends the loop. One call sends at most 1000
  page requests.
\<close>

theorem capped_loop_terminates:
  "length (requests (snd (SearchResidential dc rsr w))) \<le> length (requests w) + 1000
   \<and> (\<not> length listings < 1000 \<longrightarrow>
        SearchResidential_loop dc r listings v = ((listings, None), v))
   \<and> (length listings < 1000 \<longrightarrow>
        (case SearchResidentialPage dc r v of
           ((lp, Some err), v') \<Rightarrow> SearchResidential_loop dc r listings v = (([], Some err), v')
         | ((lp, None), v') \<Rightarrow>
             if lp = [] then SearchResidential_loop dc r listings v = ((listings, None), v')
             else SearchResidential_loop dc r listings v =
                    SearchResidential_loop dc (r\<lparr>PageNumber := PageNumber r + 1\<rparr>)
                      (listings @ lp) v'
                  \<and> 1000 - length (listings @ lp) < 1000 - length listings))"
proof -
  from loop_trace [of dc "rsr\<lparr>PageSize := 200, PageNumber := 0\<rparr>" "[]" w]
  have bound: "length (requests (snd (SearchResidential dc rsr w))) \<le> length (requests w) + 1000"
    by (auto simp: SearchResidential_def)
  have step: "case SearchResidentialPage dc r v of
           ((lp, Some err), v') \<Rightarrow> SearchResidential_loop dc r listings v = (([], Some err), v')
         | ((lp, None), v') \<Rightarrow>
             if lp = [] then SearchResidential_loop dc r listings v = ((listings, None), v')
             else SearchResidential_loop dc r listings v =
                    SearchResidential_loop dc (r\<lparr>PageNumber := PageNumber r + 1\<rparr>)
                      (listings @ lp) v'
                  \<and> 1000 - length (listings @ lp) < 1000 - length listings"
    if guard: "length listings < 1000"
  proof -
    obtain lp e v' where page: "SearchResidentialPage dc r v = ((lp, e), v')"
      by (metis surj_pair)
    show ?thesis
    proof (cases e)
      case (Some err)
      with page loop_abort [OF guard, of dc r v lp err v'] show ?thesis by simp
    next
      case None
      show ?thesis
      proof (cases "lp = []")
        case True
        with page None loop_break [OF guard, of dc r v v'] show ?thesis by simp
      next
        case False
        with guard have "1000 - length (listings @ lp) < 1000 - length listings"
          by (cases lp) simp_all
        with False page None loop_continue [OF guard, of dc r v lp v'] show ?thesis by simp
      qed
    qed
  qed
  from bound step show ?thesis by (simp add: loop_cap)
qed

text \<open>
  The first iteration against three records in pages of two goes on with two records at page
  1; with 1000 records accumulated the loop asks for nothing.
\<close>

theorem capped_loop_terminates_witness:
  "length (requests (snd (SearchResidential (paged_client 2 (replicate 3 example_listing))
      example_rsr (new_world ())))) \<le> 1000
   \<and> SearchResidential_loop (paged_client 2 (replicate 3 example_listing))
        (example_rsr\<lparr>PageNumber := 0\<rparr>) [] (new_world ()) =
      SearchResidential_loop (paged_client 2 (replicate 3 example_listing))
        (example_rsr\<lparr>PageNumber := 1\<rparr>) [example_listing, example_listing]
        (snd (SearchResidentialPage (paged_client 2 (replicate 3 example_listing))
           (example_rsr\<lparr>PageNumber := 0\<rparr>) (new_world ())))
   \<and> SearchResidential_loop (paged_client 2 (replicate 3 example_listing))
        example_rsr (replicate 1000 example_listing) (new_world ()) =
      ((replicate 1000 example_listing, None), new_world ())"
proof -
  let ?dc = "paged_client 2 (replicate 3 example_listing)"
  let ?r = "example_rsr\<lparr>PageNumber := 0\<rparr>"
  define v' where "v' = snd (SearchResidentialPage ?dc ?r (new_world ()))"
  have page: "SearchResidentialPage ?dc ?r (new_world ()) =
      (([example_listing, example_listing], None), v')"
    using paged_client_page [of 2 "replicate 3 example_listing" ?r "new_world ()"]
    unfolding v'_def
    by (cases "SearchResidentialPage ?dc ?r (new_world ())") (simp add: numeral_2_eq_2)
  have r0: "requests (new_world ()) = []" by (simp add: new_world_def)
  from capped_loop_terminates [of ?dc example_rsr "new_world ()" "[]" ?r "new_world ()"]
  have first: "length (requests (snd (SearchResidential ?dc example_rsr (new_world ())))) \<le> 1000"
    and second: "SearchResidential_loop ?dc ?r [] (new_world ()) =
      SearchResidential_loop ?dc (example_rsr\<lparr>PageNumber := 1\<rparr>)
        [example_listing, example_listing] v'"
    by (simp_all add: page r0)
  from capped_loop_terminates [of ?dc example_rsr "new_world ()" "replicate 1000 example_listing"
      example_rsr "new_world ()"]
  have third: "SearchResidential_loop ?dc example_rsr (replicate 1000 example_listing)
      (new_world ()) = ((replicate 1000 example_listing, None), new_world ())"
    by simp
  from first second third show ?thesis
    unfolding v'_def by blast
qed

subsection \<open>The call with its variables in a store\<close>

lemma store_loop_sim:
  "fst (SearchResidential_store_loop dc a listings st w) =
     fst (SearchResidential_loop dc (st a) listings w)
   \<and> snd (snd (SearchResidential_store_loop dc a listings st w)) =
     snd (SearchResidential_loop dc (st a) listings w)
   \<and> (\<forall>b. b \<noteq> a \<longrightarrow> fst (snd (SearchResidential_store_loop dc a listings st w)) b = st b)
   \<and> PageSize (fst (snd (SearchResidential_store_loop dc a listings st w)) a) = PageSize (st a)"
proof (induction dc a listings st w rule: SearchResidential_store_loop.induct)
  case (1 dc a listings st w)
  show ?case
  proof (cases "length listings < 1000")
    case False
    then show ?thesis
      by (simp add: loop_cap SearchResidential_store_loop.simps [of dc a listings st w])
  next
    case True
    obtain lp e w1 where page: "SearchResidentialPage dc (st a) w = ((lp, e), w1)"
      by (metis surj_pair)
    show ?thesis
    proof (cases "e \<noteq> None \<or> lp = []")
      case True
      with \<open>length listings < 1000\<close> page show ?thesis
        by (cases e)
          (auto simp: SearchResidential_store_loop.simps [of dc a listings st w]
            loop_abort loop_break)
    next
      case False
      then have e: "e = None" and ne: "lp \<noteq> []" by simp_all
      let ?st' = "st(a := (st a)\<lparr>PageNumber := PageNumber (st a) + 1\<rparr>)"
      have unfold_store: "SearchResidential_store_loop dc a listings st w =
          SearchResidential_store_loop dc a (listings @ lp) ?st' w1"
        using True page e ne by (simp add: SearchResidential_store_loop.simps [of dc a listings st w])
      have unfold_pure: "SearchResidential_loop dc (st a) listings w =
          SearchResidential_loop dc ((st a)\<lparr>PageNumber := PageNumber (st a) + 1\<rparr>) (listings @ lp) w1"
        using loop_continue [OF True page [unfolded e] ne] .
      from "1.IH" [OF True page [symmetric] refl _ _] e ne
      show ?thesis
        unfolding unfold_store unfold_pure by (simp add: fun_upd_def)
    qed
  qed
qed

lemma uncapped_store_frame:
  assumes "SearchResidential_uncapped_store_loop dc a listings st w = Some y"
  shows "\<forall>b. b \<noteq> a \<longrightarrow> fst (snd y) b = st b"
proof (rule SearchResidential_uncapped_store_loop.raw_induct
    [where P = "\<lambda>dc a listings st w y. \<forall>b. b \<noteq> a \<longrightarrow> fst (snd y) b = st b", OF _ assms])
  fix loop dc a listings st and w :: "'a world" and y
  assume IH: "\<And>dc a listings st w y. loop dc a listings st w = Some y \<Longrightarrow>
      \<forall>b. b \<noteq> a \<longrightarrow> fst (snd y) b = st b"
    and run: "(case SearchResidentialPage dc (st a) w of
      ((listingsPage, None), w') \<Rightarrow>
        if length listingsPage = 0 then Some ((listings, None), st, w')
        else loop dc a (listings @ listingsPage)
               (st(a := (st a)\<lparr>PageNumber := PageNumber (st a) + 1\<rparr>)) w'
      | ((listingsPage, Some err), w') \<Rightarrow> Some (([], Some err), st, w')) = Some y"
  obtain lp e w1 where page: "SearchResidentialPage dc (st a) w = ((lp, e), w1)"
    by (metis surj_pair)
  show "\<forall>b. b \<noteq> a \<longrightarrow> fst (snd y) b = st b"
  proof (cases "e \<noteq> None \<or> lp = []")
    case True
    with run page have "fst (snd y) = st" by (cases e) (auto split: if_splits)
    then show ?thesis by simp
  next
    case False
    with run page
    have "loop dc a (listings @ lp) (st(a := (st a)\<lparr>PageNumber := PageNumber (st a) + 1\<rparr>)) w1 = Some y"
      by auto
    from IH [OF this] show ?thesis by simp
  qed
qed

lemma uncapped_call_frame:
  assumes "param \<noteq> caller"
    and "SearchResidential_uncapped_call dc caller param st w = Some (r, st', w')"
  shows "st' caller = st caller"
proof -
  let ?st3 = "st(param := (st caller)\<lparr>PageSize := 200, PageNumber := 0\<rparr>)"
  from assms(2) have "SearchResidential_uncapped_store_loop dc param [] ?st3 w = Some (r, st', w')"
    by (simp add: SearchResidential_uncapped_call_def Let_def)
  from uncapped_store_frame [OF this] assms(1) show ?thesis by simp
qed

lemma uncapped_store_abort:
  "SearchResidentialPage dc (st a) w = ((lp, Some err), w') \<Longrightarrow>
   SearchResidential_uncapped_store_loop dc a listings st w = Some (([], Some err), st, w')"
  by (subst SearchResidential_uncapped_store_loop.simps) simp

lemma uncapped_store_continue:
  "SearchResidentialPage dc (st a) w = ((lp, None), w') \<Longrightarrow> lp \<noteq> [] \<Longrightarrow>
   SearchResidential_uncapped_store_loop dc a listings st w =
     SearchResidential_uncapped_store_loop dc a (listings @ lp)
       (st(a := (st a)\<lparr>PageNumber := PageNumber (st a) + 1\<rparr>)) w'"
  by (subst SearchResidential_uncapped_store_loop.simps) simp

text \<open>
  C9. The call writes to its parameter only: the caller's variable, and every other variable
  but the parameter, holds after the call what it held before, whether the call fails or
  not, while the parameter has the page size 200. The results are those of the function on
  the value of the caller's variable. The caller's variable is unchanged as well after the
  unbounded loop of \<^verbatim>\<open>domain_exporter.go\<close>, whenever that call returns.
\<close>

theorem argument_unchanged:
  assumes "param \<noteq> caller"
  shows "fst (snd (SearchResidential_call dc caller param st w)) caller = st caller
    \<and> (\<forall>b. b \<noteq> param \<longrightarrow> fst (snd (SearchResidential_call dc caller param st w)) b = st b)
    \<and> fst (SearchResidential_call dc caller param st w) = fst (SearchResidential dc (st caller) w)
    \<and> snd (snd (SearchResidential_call dc caller param st w)) =
        snd (SearchResidential dc (st caller) w)
    \<and> PageSize (fst (snd (SearchResidential_call dc caller param st w)) param) = 200
    \<and> (SearchResidential_uncapped_call dc caller param st w = Some (r, st', w') \<longrightarrow>
        st' caller = st caller)"
proof -
  let ?st3 = "st(param := (st caller)\<lparr>PageSize := 200, PageNumber := 0\<rparr>)"
  have call: "SearchResidential_call dc caller param st w =
      SearchResidential_store_loop dc param [] ?st3 w"
    by (simp add: SearchResidential_call_def Let_def)
  from store_loop_sim [of dc param "[]" ?st3 w] assms uncapped_call_frame [OF assms, of dc st w r st' w']
  show ?thesis
    unfolding call by (simp add: SearchResidential_def)
qed

text \<open>
  A call that fails on its second page leaves the caller's criteria as they were, with the
  page size 50, while the parameter has the page size 200 and, at the end, the page number 1.
\<close>

theorem argument_unchanged_witness:
  "fst (snd (SearchResidential_call scripted_client 0 1 (\<lambda>a. example_rsr)
       (new_world [ok_response ''x'', server_error]))) 0 = example_rsr
   \<and> PageSize (fst (snd (SearchResidential_call scripted_client 0 1 (\<lambda>a. example_rsr)
       (new_world [ok_response ''x'', server_error]))) 1) = 200
   \<and> PageSize example_rsr = 50
   \<and> (\<exists>st' w'. SearchResidential_uncapped_call scripted_client 0 1 (\<lambda>a. example_rsr)
          (new_world [ok_response ''x'', server_error]) =
            Some (([], Some (Non200 500 ''500 Internal Server Error'')), st', w')
        \<and> st' 0 = example_rsr \<and> PageNumber (st' 1) = 1)"
proof -
  let ?w0 = "new_world [ok_response ''x'', server_error]"
  let ?r0 = "example_rsr\<lparr>PageSize := 200, PageNumber := 0\<rparr>"
  let ?r1 = "example_rsr\<lparr>PageSize := 200, PageNumber := 1\<rparr>"
  let ?st0 = "(\<lambda>a::addr. example_rsr)(1 := ?r0)"
  let ?st1 = "(\<lambda>a::addr. example_rsr)(1 := ?r1)"
  let ?err = "Non200 500 ''500 Internal Server Error''"
  obtain w1 where p0: "SearchResidentialPage scripted_client ?r0 ?w0 = (([example_listing], None), w1)"
    and u1: "upstream w1 = [server_error]"
    using scripted_ok [of ?w0 "''x''" "[server_error]" ?r0] by (auto simp: new_world_def)
  obtain w2 where p1: "SearchResidentialPage scripted_client ?r1 w1 = (([], Some ?err), w2)"
    using scripted_500 [of w1 "[]" ?r1] u1 by auto
  have upd: "?st0(1 := (?st0 1)\<lparr>PageNumber := PageNumber (?st0 1) + 1\<rparr>) = ?st1"
    by (simp add: fun_eq_iff)
  have s0: "SearchResidential_uncapped_store_loop scripted_client 1 [] ?st0 ?w0 =
      SearchResidential_uncapped_store_loop scripted_client 1 ([] @ [example_listing]) ?st1 w1"
    using uncapped_store_continue [of scripted_client ?st0 1 ?w0 "[example_listing]" w1 "[]"] p0
    by (simp only: upd) simp
  have s1: "SearchResidential_uncapped_store_loop scripted_client 1 ([] @ [example_listing]) ?st1 w1 =
      Some (([], Some ?err), ?st1, w2)"
    using uncapped_store_abort [of scripted_client ?st1 1 w1 "[]" ?err w2] p1 by simp
  have run: "SearchResidential_uncapped_call scripted_client 0 1 (\<lambda>a. example_rsr) ?w0 =
      Some (([], Some ?err), ?st1, w2)"
    using s0 s1 by (simp add: SearchResidential_uncapped_call_def Let_def)
  from argument_unchanged [of 1 0 scripted_client "\<lambda>a. example_rsr" ?w0 "([], Some ?err)" ?st1 w2] run
  have "fst (snd (SearchResidential_call scripted_client 0 1 (\<lambda>a. example_rsr) ?w0)) 0 = example_rsr"
    and "PageSize (fst (snd (SearchResidential_call scripted_client 0 1 (\<lambda>a. example_rsr) ?w0)) 1) = 200"
    and "?st1 0 = example_rsr"
    by simp_all
  moreover have "PageSize example_rsr = 50" by (simp add: example_rsr_def)
  moreover have "PageNumber (?st1 1) = 1" by simp
  ultimately show ?thesis using run by blast
qed

section \<open>Properties of the request drivers\<close>

lemma page_log:
  "SearchResidentialPage dc rsr w = (res, w') \<Longrightarrow> set (log w) \<subseteq> set (log w')"
  by (auto simp: SearchResidentialPage_def Let_def split: sum.splits prod.splits if_splits)

lemma Collect_matches_append:
  "Collect_matches dc fs (ms1 @ ms2) g w =
     (case Collect_matches dc fs ms1 g w of
        None \<Rightarrow> None
      | Some (g1, w1) \<Rightarrow> Collect_matches dc fs ms2 g1 w1)"
proof (induction ms1 arbitrary: g w)
  case Nil
  then show ?case by simp
next
  case (Cons m ms1)
  show ?case
  proof (cases "fs_Open fs m")
    case (Inl err)
    with Cons show ?thesis by simp
  next
    case (Inr f)
    show ?thesis
    proof (cases "SearchResidential_uncapped dc (json_DecodeRequest fs f) w")
      case None
      with Inr show ?thesis by simp
    next
      case (Some y)
      obtain ls e w' where y: "y = ((ls, e), w')" by (metis surj_pair)
      with Some Inr Cons show ?thesis by (cases e) simp_all
    qed
  qed
qed

lemma Collect_matches_failure:
  assumes "fs_Open fs m = Inr f"
    and "SearchResidential_uncapped dc (json_DecodeRequest fs f) w = Some ((ls, Some err), w')"
  shows "Collect_matches dc fs (m # ms) g w =
     Collect_matches dc fs ms g (w'\<lparr>log := log w' @ [LogSearchError (json_DecodeRequest fs f) err]\<rparr>)"
  using assms by simp

lemma Collect_matches_success:
  assumes "fs_Open fs m = Inr f"
    and "SearchResidential_uncapped dc (json_DecodeRequest fs f) w = Some ((ls, None), w')"
  shows "Collect_matches dc fs (m # ms) g w = Collect_matches dc fs ms (count_listings ls g) w'"
  using assms by simp

lemma domainHandler_failure:
  assumes "SearchResidential dc (domainHandler_rsr q) v = ((ls, Some err), v')"
  shows "domainHandler dc q v =
     (\<lparr>status = 500, body = Text (''error searching domain: '' @ error_text err)\<rparr>,
      v'\<lparr>log := log v' @ [LogSearchError (domainHandler_rsr q) err]\<rparr>)"
  using assms by (simp add: domainHandler_def)

lemma domainHandler_success:
  assumes "SearchResidential dc (domainHandler_rsr q) v = ((ls, None), v')"
  shows "domainHandler dc q v = (\<lparr>status = 200, body = Metrics (count_listings ls [])\<rparr>, v')"
  using assms by (simp add: domainHandler_def)

lemma count_listings_append:
  "count_listings (xs @ ys) g = count_listings ys (count_listings xs g)"
  by (induction xs arbitrary: g) simp_all

lemma scrape_Collect_matches:
  "scrape dc fs ms w outs w' \<Longrightarrow>
   Collect_matches dc fs ms g w = Some (count_listings (concat (map found outs)) g, w')"
  by (induction arbitrary: g rule: scrape.induct) (simp_all add: count_listings_append)

lemma scrape_length: "scrape dc fs ms w outs w' \<Longrightarrow> length outs = length ms"
  by (induction rule: scrape.induct) simp_all

lemma uncapped_log:
  assumes "SearchResidential_uncapped_loop dc rsr listings w = Some y"
  shows "set (log w) \<subseteq> set (log (snd y))"
proof (rule SearchResidential_uncapped_loop.raw_induct
    [where P = "\<lambda>dc rsr listings w y. set (log w) \<subseteq> set (log (snd y))", OF _ assms])
  fix loop dc rsr listings and w :: "'a world" and y
  assume IH: "\<And>dc rsr listings w y. loop dc rsr listings w = Some y \<Longrightarrow>
      set (log w) \<subseteq> set (log (snd y))"
    and run: "(case SearchResidentialPage dc rsr w of
      ((listingsPage, None), w') \<Rightarrow>
        if length listingsPage = 0 then Some ((listings, None), w')
        else loop dc (rsr\<lparr>PageNumber := PageNumber rsr + 1\<rparr>) (listings @ listingsPage) w'
      | ((listingsPage, Some err), w') \<Rightarrow> Some (([], Some err), w')) = Some y"
  obtain lp e w1 where page: "SearchResidentialPage dc rsr w = ((lp, e), w1)"
    by (metis surj_pair)
  have w1: "set (log w) \<subseteq> set (log w1)" by (rule page_log [OF page])
  show "set (log w) \<subseteq> set (log (snd y))"
  proof (cases "e \<noteq> None \<or> lp = []")
    case True
    with run page have "snd y = w1" by (cases e) (auto split: if_splits)
    with w1 show ?thesis by simp
  next
    case False
    with run page have "loop dc (rsr\<lparr>PageNumber := PageNumber rsr + 1\<rparr>) (listings @ lp) w1 = Some y"
      by auto
    from IH [OF this] w1 show ?thesis by blast
  qed
qed

lemma scrape_log: "scrape dc fs ms w outs w' \<Longrightarrow> set (log w) \<subseteq> set (log w')"
proof (induction rule: scrape.induct)
  case (scrape_done w)
  then show ?case by simp
next
  case (scrape_open_failed m err ms w outs w')
  then show ?case by auto
next
  case (scrape_search_failed m f w listings err w1 ms outs w')
  from uncapped_log [of dc _ "[]" w "((listings, Some err), w1)"] scrape_search_failed(2)
  have "set (log w) \<subseteq> set (log w1)" by (simp add: SearchResidential_uncapped_def)
  with scrape_search_failed show ?case by auto
next
  case (scrape_found m f w listings w1 ms outs w')
  from uncapped_log [of dc _ "[]" w "((listings, None), w1)"] scrape_found(2)
  have "set (log w) \<subseteq> set (log w1)" by (simp add: SearchResidential_uncapped_def)
  with scrape_found show ?case by auto
qed

lemma scrape_failure_logged:
  "scrape dc fs ms w outs w' \<Longrightarrow> SearchFailed rsr err \<in> set outs \<Longrightarrow>
   LogSearchError rsr err \<in> set (log w')"
proof (induction rule: scrape.induct)
  case (scrape_search_failed m f w listings err' w1 ms outs w')
  show ?case
  proof (cases "SearchFailed rsr err \<in> set outs")
    case True
    then show ?thesis by (rule scrape_search_failed.IH)
  next
    case False
    with scrape_search_failed.prems have "rsr = json_DecodeRequest fs f" "err = err'" by auto
    with scrape_log [OF scrape_search_failed(3)] show ?thesis by auto
  qed
qed auto

lemma scrape_exists:
  assumes "\<And>rsr v. SearchResidential_uncapped dc rsr v \<noteq> None"
  shows "\<exists>outs w'. scrape dc fs ms w outs w'"
proof (induction ms arbitrary: w)
  case Nil
  show ?case by (blast intro: scrape_done)
next
  case (Cons m ms)
  show ?case
  proof (cases "fs_Open fs m")
    case (Inl err)
    with Cons [of "w\<lparr>log := log w @ [LogOpenError err]\<rparr>"] show ?thesis
      by (blast intro: scrape_open_failed)
  next
    case (Inr f)
    from assms [of "json_DecodeRequest fs f" w]
    obtain listings e w1 where run:
      "SearchResidential_uncapped dc (json_DecodeRequest fs f) w = Some ((listings, e), w1)"
      by (metis not_None_eq surj_pair)
    show ?thesis
    proof (cases e)
      case None
      with Inr run Cons [of w1] show ?thesis by (blast intro: scrape_found)
    next
      case (Some err)
      with Inr run Cons [of "w1\<lparr>log := log w1 @ [LogSearchError (json_DecodeRequest fs f) err]\<rparr>"]
      show ?thesis by (blast intro: scrape_search_failed)
    qed
  qed
qed

lemma Collect_matches_scrape:
  "Collect_matches dc fs ms g w = Some (g', w') \<Longrightarrow> \<exists>outs. scrape dc fs ms w outs w'"
proof (induction ms arbitrary: g w)
  case Nil
  then show ?case by (auto intro: scrape_done)
next
  case (Cons m ms)
  show ?case
  proof (cases "fs_Open fs m")
    case (Inl err)
    with Cons.prems Cons.IH [of g "w\<lparr>log := log w @ [LogOpenError err]\<rparr>"] show ?thesis
      by (auto intro: scrape_open_failed)
  next
    case (Inr f)
    show ?thesis
    proof (cases "SearchResidential_uncapped dc (json_DecodeRequest fs f) w")
      case None
      with Inr Cons.prems show ?thesis by simp
    next
      case (Some y)
      obtain listings e w1 where y: "y = ((listings, e), w1)" by (metis surj_pair)
      show ?thesis
      proof (cases e)
        case None
        with Inr Some y Cons.prems Cons.IH [of "count_listings listings g" w1] show ?thesis
          by (auto intro: scrape_found)
      next
        case (Some err)
        with Inr \<open>SearchResidential_uncapped dc (json_DecodeRequest fs f) w = Some y\<close> y Cons.prems
          Cons.IH [of g "w1\<lparr>log := log w1 @ [LogSearchError (json_DecodeRequest fs f) err]\<rparr>"]
        show ?thesis by (auto intro: scrape_search_failed)
      qed
    qed
  qed
qed

lemma others_only:
  assumes "i < length outs" and "outs ! i = SearchFailed rsr err"
  shows "concat (map found outs) = concat (map found (take i outs @ drop (Suc i) outs))"
proof -
  have "outs = take i outs @ SearchFailed rsr err # drop (Suc i) outs"
    using id_take_nth_drop [OF assms(1)] assms(2) by simp
  then have "concat (map found outs) =
      concat (map found (take i outs @ SearchFailed rsr err # drop (Suc i) outs))"
    by simp
  then show ?thesis by simp
qed

lemma scripted_page_upstream:
  assumes "SearchResidentialPage scripted_client rsr w = ((lp, None), w1)"
  shows "length (upstream w1) < length (upstream w)"
  using assms
  by (auto simp: SearchResidentialPage_def scripted_client_def unary_page_def Let_def
      split: sum.splits prod.splits if_splits list.splits)

lemma scripted_returns_loop:
  "SearchResidential_uncapped_loop scripted_client rsr listings w \<noteq> None"
proof (induction "length (upstream w)" arbitrary: rsr listings w rule: less_induct)
  case less
  obtain lp e w1 where page: "SearchResidentialPage scripted_client rsr w = ((lp, e), w1)"
    by (metis surj_pair)
  show ?case
  proof (cases e)
    case (Some err)
    with page show ?thesis by (simp add: uncapped_abort)
  next
    case None
    show ?thesis
    proof (cases "lp = []")
      case True
      with page None show ?thesis by (simp add: uncapped_break)
    next
      case False
      from page None have "length (upstream w1) < length (upstream w)"
        by (auto dest: scripted_page_upstream)
      from less [OF this] uncapped_continue [OF page [unfolded None] False, of listings]
      show ?thesis by simp
    qed
  qed
qed

lemma scripted_returns: "SearchResidential_uncapped scripted_client rsr w \<noteq> None"
  by (simp add: SearchResidential_uncapped_def scripted_returns_loop)

lemma scrape_files:
  "scrape dc fs ms w outs w' \<Longrightarrow> i < length ms \<Longrightarrow> outs ! i = SearchFailed rsr err \<Longrightarrow>
   \<exists>f. fs_Open fs (ms ! i) = Inr f \<and> rsr = json_DecodeRequest fs f"
proof (induction arbitrary: i rule: scrape.induct)
  case (scrape_done w)
  then show ?case by simp
next
  case (scrape_open_failed m err' ms w outs w')
  then show ?case by (cases i) simp_all
next
  case (scrape_search_failed m f w listings err' w1 ms outs w')
  then show ?case by (cases i) simp_all
next
  case (scrape_found m f w listings w1 ms outs w')
  then show ?case by (cases i) simp_all
qed

text \<open>
  C7. Batch mode, for every list of criteria files. A run of the loop of \<^verbatim>\<open>Collect\<close> that
  reaches its end returns: the scrape succeeds and sends the gauge vector that counts the
  listings found by the files whose search succeeded, and nothing else; there is one outcome
  per file; a file whose search failed is a file that was opened and decoded, its failure is
  in the log, and the listings counted are those of the other files. The loop reaches its
  end whenever every search returns, and every scrape that returns is such a run. Step by
  step: when the search of one file fails, wherever the file stands among the matches, the
  loop goes on with the remaining files from the gauge vector it had. On demand: when the
  search fails, \<^verbatim>\<open>domainHandler\<close> answers with status 500 and the text of the error, and
  logs it.
\<close>

theorem failure_policy:
  "(scrape dc fs ms w outs w' \<longrightarrow>
      Collect_matches dc fs ms g w = Some (count_listings (concat (map found outs)) g, w')
      \<and> (fs_Glob fs ''searches/*.json'' = Inr ms \<longrightarrow>
           Collect dc fs w = Some (Some (count_listings (concat (map found outs)) []), w'))
      \<and> length outs = length ms
      \<and> (\<forall>i rsr err. i < length outs \<and> outs ! i = SearchFailed rsr err \<longrightarrow>
           (\<exists>f. fs_Open fs (ms ! i) = Inr f \<and> rsr = json_DecodeRequest fs f)
           \<and> LogSearchError rsr err \<in> set (log w')
           \<and> concat (map found outs) = concat (map found (take i outs @ drop (Suc i) outs))))
   \<and> ((\<forall>rsr v. SearchResidential_uncapped dc rsr v \<noteq> None) \<longrightarrow>
        (\<exists>outs w'. scrape dc fs ms w outs w'))
   \<and> (Collect_matches dc fs ms g w = Some (g', w') \<longrightarrow> (\<exists>outs. scrape dc fs ms w outs w'))
   \<and> (Collect_matches dc fs ms1 g w = Some (g1, w1) \<and> fs_Open fs m = Inr f
      \<and> SearchResidential_uncapped dc (json_DecodeRequest fs f) w1 = Some ((ls, Some err), w2)
    \<longrightarrow> Collect_matches dc fs (ms1 @ m # ms2) g w =
          Collect_matches dc fs ms2 g1
            (w2\<lparr>log := log w2 @ [LogSearchError (json_DecodeRequest fs f) err]\<rparr>))
   \<and> (SearchResidential dc (domainHandler_rsr q) v = ((ls', Some err'), v')
    \<longrightarrow> domainHandler dc q v =
          (\<lparr>status = 500, body = Text (''error searching domain: '' @ error_text err')\<rparr>,
           v'\<lparr>log := log v' @ [LogSearchError (domainHandler_rsr q) err']\<rparr>))"
proof -
  have run: "Collect_matches dc fs ms g w = Some (count_listings (concat (map found outs)) g, w')
      \<and> (fs_Glob fs ''searches/*.json'' = Inr ms \<longrightarrow>
           Collect dc fs w = Some (Some (count_listings (concat (map found outs)) []), w'))
      \<and> length outs = length ms
      \<and> (\<forall>i rsr err. i < length outs \<and> outs ! i = SearchFailed rsr err \<longrightarrow>
           (\<exists>f. fs_Open fs (ms ! i) = Inr f \<and> rsr = json_DecodeRequest fs f)
           \<and> LogSearchError rsr err \<in> set (log w')
           \<and> concat (map found outs) = concat (map found (take i outs @ drop (Suc i) outs)))"
    if s: "scrape dc fs ms w outs w'"
  proof -
    have len: "length outs = length ms" by (rule scrape_length [OF s])
    have table: "Collect_matches dc fs ms g w =
        Some (count_listings (concat (map found outs)) g, w')" for g
      by (rule scrape_Collect_matches [OF s])
    have sent: "Collect dc fs w = Some (Some (count_listings (concat (map found outs)) []), w')"
      if "fs_Glob fs ''searches/*.json'' = Inr ms"
      using that table [of "[]"] by (simp add: Collect_def)
    have failed: "(\<exists>f. fs_Open fs (ms ! i) = Inr f \<and> rsr = json_DecodeRequest fs f)
           \<and> LogSearchError rsr err \<in> set (log w')
           \<and> concat (map found outs) = concat (map found (take i outs @ drop (Suc i) outs))"
      if i: "i < length outs" and o: "outs ! i = SearchFailed rsr err" for i rsr err
    proof -
      from i len have "i < length ms" by simp
      from scrape_files [OF s this o]
      have "\<exists>f. fs_Open fs (ms ! i) = Inr f \<and> rsr = json_DecodeRequest fs f" .
      moreover from i o have "SearchFailed rsr err \<in> set outs" by (metis nth_mem)
      then have "LogSearchError rsr err \<in> set (log w')" by (rule scrape_failure_logged [OF s])
      moreover have "concat (map found outs) =
          concat (map found (take i outs @ drop (Suc i) outs))"
        by (rule others_only [OF i o])
      ultimately show ?thesis by blast
    qed
    from len table [of g] sent failed show ?thesis by blast
  qed
  have returns: "\<exists>outs w'. scrape dc fs ms w outs w'"
    if "\<forall>rsr v. SearchResidential_uncapped dc rsr v \<noteq> None"
    using that by (intro scrape_exists) simp
  have conv: "\<exists>outs. scrape dc fs ms w outs w'" if "Collect_matches dc fs ms g w = Some (g', w')"
    by (rule Collect_matches_scrape [OF that])
  have step: "Collect_matches dc fs (ms1 @ m # ms2) g w =
          Collect_matches dc fs ms2 g1
            (w2\<lparr>log := log w2 @ [LogSearchError (json_DecodeRequest fs f) err]\<rparr>)"
    if "Collect_matches dc fs ms1 g w = Some (g1, w1) \<and> fs_Open fs m = Inr f
      \<and> SearchResidential_uncapped dc (json_DecodeRequest fs f) w1 = Some ((ls, Some err), w2)"
    using that by (simp add: Collect_matches_append)
  have handler: "domainHandler dc q v =
          (\<lparr>status = 500, body = Text (''error searching domain: '' @ error_text err')\<rparr>,
           v'\<lparr>log := log v' @ [LogSearchError (domainHandler_rsr q) err']\<rparr>)"
    if "SearchResidential dc (domainHandler_rsr q) v = ((ls', Some err'), v')"
    using that by (simp add: domainHandler_failure)
  from run returns conv step handler show ?thesis by blast
qed

lemma error_text_500:
  "error_text (Non200 500 ''500 Internal Server Error'') =
     ''got non-200 code: 500, 500 Internal Server Error''"
proof -
  have "sint (500 :: go_int) = 500" by simp
  then have "Sprintf_v (500 :: go_int) = ''500''"
    by (simp add: Sprintf_v_def decimal.simps digit_char_def)
  then show ?thesis by simp
qed

text \<open>
  Two criteria files: the search of the first is answered with status 500 on its first page,
  the search of the second finds two listings. The scrape returns the count of the second and
  the log has the failure of the first. Against an API whose every search returns, the loop
  over the files reaches its end. The handler, answered with status 500, answers 500.
\<close>

theorem failure_policy_witness:
  "(\<exists>w'. scrape scripted_client two_files [''searches/a.json'', ''searches/b.json'']
        (new_world [server_error, ok_response ''xx'', ok_response ''''])
        [SearchFailed (example_rsr\<lparr>ListingType := ''Rent''\<rparr>)
           (Non200 500 ''500 Internal Server Error''),
         Found [example_listing, example_listing]] w'
      \<and> Collect scripted_client two_files
          (new_world [server_error, ok_response ''xx'', ok_response '''']) =
            Some (Some [(label_values example_listing, 2)], w')
      \<and> LogSearchError (example_rsr\<lparr>ListingType := ''Rent''\<rparr>)
           (Non200 500 ''500 Internal Server Error'') \<in> set (log w'))
   \<and> (\<exists>outs w'. scrape scripted_client two_files [''searches/b.json'', ''searches/a.json'']
        (new_world [ok_response ''x'']) outs w')
   \<and> fst (domainHandler scripted_client Map.empty (new_world [server_error])) =
       \<lparr>status = 500,
        body = Text ''error searching domain: got non-200 code: 500, 500 Internal Server Error''\<rparr>"
proof -
  let ?w0 = "new_world [server_error, ok_response ''xx'', ok_response '''']"
  let ?a = "example_rsr\<lparr>ListingType := ''Rent''\<rparr>"
  let ?b = "example_rsr\<lparr>ListingType := ''Sale''\<rparr>"
  let ?err = "Non200 500 ''500 Internal Server Error''"
  let ?ms = "[''searches/a.json'', ''searches/b.json'']"
  let ?outs = "[SearchFailed ?a ?err, Found [example_listing, example_listing]]"
  have files: "fs_Glob two_files ''searches/*.json'' = Inr ?ms"
    "fs_Open two_files ''searches/a.json'' = Inr ''Rent''"
    "fs_Open two_files ''searches/b.json'' = Inr ''Sale''"
    "json_DecodeRequest two_files ''Rent'' = ?a"
    "json_DecodeRequest two_files ''Sale'' = ?b"
    by (simp_all add: two_files_def)
  \<comment> \<open>the first search: status 500 on its first page\<close>
  obtain w1 where p0: "SearchResidentialPage scripted_client (?a\<lparr>PageSize := 200, PageNumber := 0\<rparr>) ?w0 =
      (([], Some ?err), w1)"
    and u1: "upstream w1 = [ok_response ''xx'', ok_response '''']"
    using scripted_500 [of ?w0 "[ok_response ''xx'', ok_response '''']"
        "?a\<lparr>PageSize := 200, PageNumber := 0\<rparr>"]
    by (auto simp: new_world_def)
  have a: "SearchResidential_uncapped scripted_client ?a ?w0 = Some (([], Some ?err), w1)"
    unfolding SearchResidential_uncapped_def by (rule uncapped_abort [OF p0])
  let ?w1' = "w1\<lparr>log := log w1 @ [LogSearchError ?a ?err]\<rparr>"
  \<comment> \<open>the second search: a page of two and an empty page\<close>
  obtain w2 where p1: "SearchResidentialPage scripted_client (?b\<lparr>PageSize := 200, PageNumber := 0\<rparr>) ?w1' =
      (([example_listing, example_listing], None), w2)"
    and u2: "upstream w2 = [ok_response '''']"
    using scripted_ok [of ?w1' "''xx''" "[ok_response '''']" "?b\<lparr>PageSize := 200, PageNumber := 0\<rparr>"] u1
    by (auto simp: numeral_2_eq_2)
  obtain w3 where p2: "SearchResidentialPage scripted_client (?b\<lparr>PageSize := 200, PageNumber := 1\<rparr>) w2 =
      (([], None), w3)"
    using scripted_ok [of w2 "''''" "[]" "?b\<lparr>PageSize := 200, PageNumber := 1\<rparr>"] u2
    by auto
  have b: "SearchResidential_uncapped scripted_client ?b ?w1' =
      Some (([example_listing, example_listing], None), w3)"
    unfolding SearchResidential_uncapped_def
    using uncapped_continue [OF p1, of "[]"] uncapped_break [OF p2, of "[example_listing, example_listing]"]
    by simp
  \<comment> \<open>the run of the loop over the two files\<close>
  have b': "SearchResidential_uncapped scripted_client (json_DecodeRequest two_files ''Sale'')
      (w1\<lparr>log := log w1 @ [LogSearchError (json_DecodeRequest two_files ''Rent'') ?err]\<rparr>) =
      Some (([example_listing, example_listing], None), w3)"
    using b by (simp add: files)
  have a': "SearchResidential_uncapped scripted_client (json_DecodeRequest two_files ''Rent'') ?w0 =
      Some (([], Some ?err), w1)"
    using a by (simp add: files)
  have "scrape scripted_client two_files ?ms ?w0
      [SearchFailed (json_DecodeRequest two_files ''Rent'') ?err,
       Found [example_listing, example_listing]] w3"
    by (rule scrape_search_failed [OF files(2) a' scrape_found [OF files(3) b' scrape_done]])
  then have run: "scrape scripted_client two_files ?ms ?w0 ?outs w3"
    by (simp add: files)
  have counts: "count_listings (concat (map found ?outs)) [] = [(label_values example_listing, 2)]"
    by simp
  have returns: "\<forall>rsr v. SearchResidential_uncapped scripted_client rsr v \<noteq> None"
    by (simp add: scripted_returns)
  have failing: "Collect_matches scripted_client two_files [] [] ?w0 = Some ([], ?w0)
      \<and> fs_Open two_files ''searches/a.json'' = Inr ''Rent''
      \<and> SearchResidential_uncapped scripted_client (json_DecodeRequest two_files ''Rent'') ?w0 =
          Some (([], Some ?err), w1)"
    using a' by (simp add: files)
  \<comment> \<open>on demand\<close>
  let ?q = "domainHandler_rsr Map.empty"
  obtain v1 where q0: "SearchResidentialPage scripted_client (?q\<lparr>PageSize := 200, PageNumber := 0\<rparr>)
      (new_world [server_error]) = (([], Some ?err), v1)"
    using scripted_500 [of "new_world [server_error]" "[]" "?q\<lparr>PageSize := 200, PageNumber := 0\<rparr>"]
    by (auto simp: new_world_def)
  have search: "SearchResidential scripted_client ?q (new_world [server_error]) = (([], Some ?err), v1)"
    unfolding SearchResidential_def using loop_abort [OF _ q0, of "[]"] by simp
  note th = failure_policy [where dc = scripted_client and fs = two_files and ms = ?ms
      and w = ?w0 and outs = ?outs and w' = w3 and g = "[]" and g' = "[(label_values example_listing, 2)]"
      and ?ms1.0 = "[]" and ?g1.0 = "[]" and ?w1.0 = ?w0 and m = "''searches/a.json''"
      and f = "''Rent''" and ls = "[]" and err = ?err and ?w2.0 = w1 and ?ms2.0 = "[''searches/b.json'']"
      and q = Map.empty and v = "new_world [server_error]" and ls' = "[]" and err' = ?err
      and v' = v1]
  from th run have "fs_Glob two_files ''searches/*.json'' = Inr ?ms \<longrightarrow>
      Collect scripted_client two_files ?w0 =
        Some (Some (count_listings (concat (map found ?outs)) []), w3)"
    by blast
  with files(1) have batch:
    "Collect scripted_client two_files ?w0 = Some (Some [(label_values example_listing, 2)], w3)"
    by (simp only: counts)
  from th run have "\<forall>i rsr err. i < length ?outs \<and> ?outs ! i = SearchFailed rsr err \<longrightarrow>
      (\<exists>f. fs_Open two_files (?ms ! i) = Inr f \<and> rsr = json_DecodeRequest two_files f)
      \<and> LogSearchError rsr err \<in> set (log w3)
      \<and> concat (map found ?outs) = concat (map found (take i ?outs @ drop (Suc i) ?outs))"
    by blast
  from this [rule_format, of 0 ?a ?err] have logged: "LogSearchError ?a ?err \<in> set (log w3)"
    by simp
  from th run have "Collect_matches scripted_client two_files ?ms [] ?w0 =
      Some (count_listings (concat (map found ?outs)) [], w3)"
    by blast
  then have table: "Collect_matches scripted_client two_files ?ms [] ?w0 =
      Some ([(label_values example_listing, 2)], w3)"
    by (simp only: counts)
  from th table have again: "\<exists>outs. scrape scripted_client two_files ?ms ?w0 outs w3"
    by blast
  from th failing have next_file: "Collect_matches scripted_client two_files ([] @ ''searches/a.json'' # [''searches/b.json'']) [] ?w0 =
      Collect_matches scripted_client two_files [''searches/b.json''] []
        (w1\<lparr>log := log w1 @ [LogSearchError (json_DecodeRequest two_files ''Rent'') ?err]\<rparr>)"
    by blast
  from th search
  have ondemand: "fst (domainHandler scripted_client Map.empty (new_world [server_error])) =
       \<lparr>status = 500,
        body = Text ''error searching domain: got non-200 code: 500, 500 Internal Server Error''\<rparr>"
    by (simp add: error_text_500 del: error_text.simps)
  from failure_policy [where dc = scripted_client and fs = two_files
      and ms = "[''searches/b.json'', ''searches/a.json'']" and w = "new_world [ok_response ''x'']"]
    returns
  have total: "\<exists>outs w'. scrape scripted_client two_files [''searches/b.json'', ''searches/a.json'']
        (new_world [ok_response ''x'']) outs w'"
    by blast
  from run batch logged total ondemand show ?thesis by blast
qed

lemma loop_first_request:
  assumes guard: "length listings < 1000" and j: "json_Marshal dc rsr = Inr j"
  shows "take (Suc (length (requests w)))
           (requests (snd (SearchResidential_loop dc rsr listings w))) =
         requests w @ [\<lparr>Method = ''POST'', URL = search_url,
           Header = [(''X-Api-Key'', apiKey dc), (''Accept'', ''application/json'')], Body = j\<rparr>]"
proof -
  let ?req = "\<lparr>Method = ''POST'', URL = search_url,
           Header = [(''X-Api-Key'', apiKey dc), (''Accept'', ''application/json'')], Body = j\<rparr>"
  obtain lp e w1 where page: "SearchResidentialPage dc rsr w = ((lp, e), w1)"
    by (metis surj_pair)
  from page_requests [OF j, of w] page have w1: "requests w1 = requests w @ [?req]" by simp
  have "\<exists>reqs. requests (snd (SearchResidential_loop dc rsr listings w)) = requests w1 @ reqs"
  proof (cases "e \<noteq> None \<or> lp = []")
    case True
    with guard page have "snd (SearchResidential_loop dc rsr listings w) = w1"
      by (cases e) (auto simp: loop_abort loop_break)
    then show ?thesis by simp
  next
    case False
    with guard page have "SearchResidential_loop dc rsr listings w =
        SearchResidential_loop dc (rsr\<lparr>PageNumber := PageNumber rsr + 1\<rparr>) (listings @ lp) w1"
      by (auto simp: loop_continue)
    with loop_trace [of dc "rsr\<lparr>PageNumber := PageNumber rsr + 1\<rparr>" "listings @ lp" w1]
    show ?thesis by auto
  qed
  then obtain reqs where "requests (snd (SearchResidential_loop dc rsr listings w)) =
      (requests w @ [?req]) @ reqs"
    using w1 by auto
  then show ?thesis by simp
qed

lemma domainHandler_requests:
  "requests (snd (domainHandler dc q w)) =
     requests (snd (SearchResidential dc (domainHandler_rsr q) w))"
proof -
  obtain ls e w' where run: "SearchResidential dc (domainHandler_rsr q) w = ((ls, e), w')"
    by (metis surj_pair)
  then show ?thesis
    by (cases e) (simp_all add: domainHandler_def)
qed

lemma domainHandler_rsr_query:
  "domainHandler_rsr q =
     \<lparr>ListingType = ''Rent'', MinBedrooms = 0, MinBathrooms = 0, MinCarspaces = 0,
      PageSize = 0, PageNumber = 0,
      Locations =
        [\<lparr>State = (case q ''state'' of None \<Rightarrow> [] | Some [] \<Rightarrow> [] | Some (x # xs) \<Rightarrow> x),
          Region = [], Area = [],
          Suburb = (case q ''suburb'' of None \<Rightarrow> [] | Some [] \<Rightarrow> [] | Some (x # xs) \<Rightarrow> x),
          PostCode = (case q ''postCode'' of None \<Rightarrow> [] | Some [] \<Rightarrow> [] | Some (x # xs) \<Rightarrow> x),
          IncludeSurroundingSuburbs = False\<rparr>]\<rparr>"
  by (simp add: domainHandler_rsr_def Get_def)

lemma domainHandler_rsr_parameters:
  "domainHandler_rsr (r(''state'' \<mapsto> s # ss, ''suburb'' \<mapsto> b # bs, ''postCode'' \<mapsto> p # ps)) =
     \<lparr>ListingType = ''Rent'', MinBedrooms = 0, MinBathrooms = 0, MinCarspaces = 0,
      PageSize = 0, PageNumber = 0,
      Locations = [\<lparr>State = s, Region = [], Area = [], Suburb = b,
                    PostCode = p, IncludeSurroundingSuburbs = False\<rparr>]\<rparr>"
  by (simp add: domainHandler_rsr_def Get_def)

lemma domainHandler_rsr_Pyrmont:
  "domainHandler_rsr [''suburb'' \<mapsto> [''Pyrmont'']] =
     \<lparr>ListingType = ''Rent'', MinBedrooms = 0, MinBathrooms = 0, MinCarspaces = 0,
      PageSize = 0, PageNumber = 0,
      Locations = [\<lparr>State = [], Region = [], Area = [], Suburb = ''Pyrmont'',
                    PostCode = [], IncludeSurroundingSuburbs = False\<rparr>]\<rparr>"
  by (simp add: domainHandler_rsr_def Get_def)

lemma domainHandler_first_request:
  assumes "json_Marshal dc ((domainHandler_rsr q)\<lparr>PageSize := 200, PageNumber := 0\<rparr>) = Inr j"
  shows "take (Suc (length (requests w))) (requests (snd (domainHandler dc q w))) =
          requests w @ [\<lparr>Method = ''POST'', URL = search_url,
            Header = [(''X-Api-Key'', apiKey dc), (''Accept'', ''application/json'')], Body = j\<rparr>]"
  using loop_first_request [OF _ assms, of "[]" w]
  by (simp add: domainHandler_requests SearchResidential_def)

text \<open>
  C8. The criteria the handler derives from a request: listing type \<^verbatim>\<open>Rent\<close>, minimum
  thresholds zero, and one location filter whose state, suburb and post code are the first
  values of the parameters \<^verbatim>\<open>state\<close>, \<^verbatim>\<open>suburb\<close> and \<^verbatim>\<open>postCode\<close> of the query (empty for
  a parameter the query does not have) and whose every other field is at its zero value. A
  query with the three parameters, whatever else it has, gives the filter with their first
  values; a query with only \<^verbatim>\<open>suburb=Pyrmont\<close> gives the filter with that suburb and
  nothing else. These are the criteria of the search: the first request the handler sends
  has as its body their JSON, with the page size 200 and the page number 0 the fetcher sets.
\<close>

theorem derived_criteria:
  "domainHandler_rsr q =
     \<lparr>ListingType = ''Rent'', MinBedrooms = 0, MinBathrooms = 0, MinCarspaces = 0,
      PageSize = 0, PageNumber = 0,
      Locations =
        [\<lparr>State = (case q ''state'' of None \<Rightarrow> [] | Some [] \<Rightarrow> [] | Some (x # xs) \<Rightarrow> x),
          Region = [], Area = [],
          Suburb = (case q ''suburb'' of None \<Rightarrow> [] | Some [] \<Rightarrow> [] | Some (x # xs) \<Rightarrow> x),
          PostCode = (case q ''postCode'' of None \<Rightarrow> [] | Some [] \<Rightarrow> [] | Some (x # xs) \<Rightarrow> x),
          IncludeSurroundingSuburbs = False\<rparr>]\<rparr>
   \<and> domainHandler_rsr (r(''state'' \<mapsto> s # ss, ''suburb'' \<mapsto> b # bs, ''postCode'' \<mapsto> p # ps)) =
     \<lparr>ListingType = ''Rent'', MinBedrooms = 0, MinBathrooms = 0, MinCarspaces = 0,
      PageSize = 0, PageNumber = 0,
      Locations = [\<lparr>State = s, Region = [], Area = [], Suburb = b,
                    PostCode = p, IncludeSurroundingSuburbs = False\<rparr>]\<rparr>
   \<and> domainHandler_rsr [''suburb'' \<mapsto> [''Pyrmont'']] =
     \<lparr>ListingType = ''Rent'', MinBedrooms = 0, MinBathrooms = 0, MinCarspaces = 0,
      PageSize = 0, PageNumber = 0,
      Locations = [\<lparr>State = [], Region = [], Area = [], Suburb = ''Pyrmont'',
                    PostCode = [], IncludeSurroundingSuburbs = False\<rparr>]\<rparr>
   \<and> (json_Marshal dc ((domainHandler_rsr q)\<lparr>PageSize := 200, PageNumber := 0\<rparr>) = Inr j \<longrightarrow>
        take (Suc (length (requests w))) (requests (snd (domainHandler dc q w))) =
          requests w @ [\<lparr>Method = ''POST'', URL = search_url,
            Header = [(''X-Api-Key'', apiKey dc), (''Accept'', ''application/json'')], Body = j\<rparr>])"
  using domainHandler_rsr_query [of q] domainHandler_rsr_parameters [of r s ss b bs p ps]
    domainHandler_rsr_Pyrmont domainHandler_first_request [of dc q j w]
  by blast

text \<open>
  The handler on \<^verbatim>\<open>/listings?suburb=Pyrmont\<close> against an API with no records, and the
  criteria of \<^verbatim>\<open>/listings?state=NSW&suburb=Pyrmont&suburb=Glebe&postCode=2009\<close>.
\<close>

theorem derived_criteria_witness:
  "map Suburb (Locations (domainHandler_rsr [''suburb'' \<mapsto> [''Pyrmont'']])) = [''Pyrmont'']
   \<and> Locations (domainHandler_rsr
        [''state'' \<mapsto> [''NSW''], ''suburb'' \<mapsto> [''Pyrmont'', ''Glebe''], ''postCode'' \<mapsto> [''2009'']]) =
      [\<lparr>State = ''NSW'', Region = [], Area = [], Suburb = ''Pyrmont'',
        PostCode = ''2009'', IncludeSurroundingSuburbs = False\<rparr>]
   \<and> take 1 (requests (snd (domainHandler (paged_client 200 []) [''suburb'' \<mapsto> [''Pyrmont'']]
        (new_world ())))) =
      [\<lparr>Method = ''POST'', URL = search_url,
        Header = [(''X-Api-Key'', ''secret''), (''Accept'', ''application/json'')], Body = []\<rparr>]"
proof -
  let ?q = "[''suburb'' \<mapsto> [''Pyrmont'']]"
  have j: "json_Marshal (paged_client 200 [])
      ((domainHandler_rsr ?q)\<lparr>PageSize := 200, PageNumber := 0\<rparr>) = Inr []"
    by (simp add: paged_client_def unary_page_def)
  note th = derived_criteria [where q = ?q and dc = "paged_client 200 []" and j = "[]"
      and w = "new_world ()" and r = Map.empty and s = "''NSW''" and ss = "[]"
      and b = "''Pyrmont''" and bs = "[''Glebe'']" and p = "''2009''" and ps = "[]"]
  from th have lit: "domainHandler_rsr ?q =
     \<lparr>ListingType = ''Rent'', MinBedrooms = 0, MinBathrooms = 0, MinCarspaces = 0,
      PageSize = 0, PageNumber = 0,
      Locations = [\<lparr>State = [], Region = [], Area = [], Suburb = ''Pyrmont'',
                    PostCode = [], IncludeSurroundingSuburbs = False\<rparr>]\<rparr>"
    by blast
  from th have all: "domainHandler_rsr
        [''state'' \<mapsto> [''NSW''], ''suburb'' \<mapsto> [''Pyrmont'', ''Glebe''], ''postCode'' \<mapsto> [''2009'']] =
     \<lparr>ListingType = ''Rent'', MinBedrooms = 0, MinBathrooms = 0, MinCarspaces = 0,
      PageSize = 0, PageNumber = 0,
      Locations = [\<lparr>State = ''NSW'', Region = [], Area = [], Suburb = ''Pyrmont'',
                    PostCode = ''2009'', IncludeSurroundingSuburbs = False\<rparr>]\<rparr>"
    by blast
  from th j have sent: "take (Suc (length (requests (new_world ()))))
      (requests (snd (domainHandler (paged_client 200 []) ?q (new_world ())))) =
      requests (new_world ()) @ [\<lparr>Method = ''POST'', URL = search_url,
        Header = [(''X-Api-Key'', apiKey (paged_client 200 [])), (''Accept'', ''application/json'')],
        Body = []\<rparr>]"
    by blast
  have r0: "requests (new_world ()) = []" by (simp add: new_world_def)
  have key: "apiKey (paged_client 200 []) = ''secret''" by (simp add: paged_client_def)
  from sent have "take 1 (requests (snd (domainHandler (paged_client 200 []) ?q (new_world ())))) =
      [\<lparr>Method = ''POST'', URL = search_url,
        Header = [(''X-Api-Key'', ''secret''), (''Accept'', ''application/json'')], Body = []\<rparr>]"
    by (simp add: r0 key)
  moreover have "map Suburb (Locations (domainHandler_rsr ?q)) = [''Pyrmont'']"
    by (simp add: lit)
  moreover have "Locations (domainHandler_rsr
        [''state'' \<mapsto> [''NSW''], ''suburb'' \<mapsto> [''Pyrmont'', ''Glebe''], ''postCode'' \<mapsto> [''2009'']]) =
      [\<lparr>State = ''NSW'', Region = [], Area = [], Suburb = ''Pyrmont'',
        PostCode = ''2009'', IncludeSurroundingSuburbs = False\<rparr>]"
    by (simp only: all ResidentialSearchRequest.simps)
  ultimately show ?thesis by blast
qed

end
